theory Spec2Isabelle
  imports Main "HOL-Library.Multiset"
begin

section \<open>Python values used by imguralbum.py\<close>

text \<open>
  Strings are lists of characters. The exceptions are the classes that imguralbum.py
  names (lines 21, 22, 26 and 45) together with the two built-in ones that its code can
  raise by itself; \<open>OtherException name code\<close> stands for an exception of any other
  class (none of these and no subclass of them), with the value of its attribute
  \<open>code\<close> when it has one.
\<close>

datatype py_exn =
    ConnectionError
  | Timeout
  | HTTPError
  | RequestException
  | TooManyRedirects
  | UnidentifiedImageError
  | MaxRetryError
  | ImgurAlbumException string
  | AttributeError
  | TypeError
  | OtherException string "int option"

text \<open>\<open>e.code\<close>: none of the classes of requests, urllib3 and PIL defines it.\<close>

fun exn_code :: "py_exn \<Rightarrow> int option" where
  "exn_code (OtherException name c) = c"
| "exn_code e = None"

subsection \<open>Decimal output: \<open>str(n)\<close>, \<open>"%d" % n\<close> and \<open>"{:0>2}".format(n)\<close>\<close>

definition digit_char :: "nat \<Rightarrow> char" where
  "digit_char n = ''0123456789'' ! (n mod 10)"

function str_nat :: "nat \<Rightarrow> string" where
  "str_nat n = (if n < 10 then [digit_char n] else str_nat (n div 10) @ [digit_char n])"
  by pat_completeness auto
termination
  by (relation "measure id") auto

declare str_nat.simps [simp del]

definition str_int :: "int \<Rightarrow> string" where
  "str_int i = (if i < 0 then CHR ''-'' # str_nat (nat (- i)) else str_nat (nat i))"

text \<open>\<open>"{:0>2}".format(counter)\<close>: right-aligned in a field of width 2, filled with 0.\<close>

definition format_0_2 :: "nat \<Rightarrow> string" where
  "format_0_2 n = replicate (2 - length (str_nat n)) (CHR ''0'') @ str_nat n"

section \<open>Regular expressions as \<open>re\<close> matches them\<close>

text \<open>
  The fragment of Python's pattern language that the two patterns of imguralbum.py use:
  single characters and character classes, concatenation, alternation, the greedy
  \<open>?\<close> and \<open>+\<close>/\<open>*\<close> of a character class, the lazy \<open>.*?\<close>, and numbered groups.
  The matcher is the backtracking one of \<open>re\<close>: every alternative is tried in the order
  of its priority against the rest of the pattern (the continuation \<open>k\<close>), and the first
  one that lets the whole pattern match wins. A match object is the map from group
  numbers to the text each group matched.
\<close>

datatype rx =
    Chr "char \<Rightarrow> bool"
  | Eps
  | Seq rx rx
  | Alt rx rx
  | Opt rx
  | Grp nat rx
  | StarLazy "char \<Rightarrow> bool"
  | StarGreedy "char \<Rightarrow> bool"

type_synonym groups = "nat \<Rightarrow> string option"

fun star_lazy :: "(char \<Rightarrow> bool) \<Rightarrow> string \<Rightarrow> (string \<Rightarrow> 'r option) \<Rightarrow> 'r option" where
  "star_lazy p [] k = k []"
| "star_lazy p (x # xs) k =
     (case k (x # xs) of
        Some r \<Rightarrow> Some r
      | None \<Rightarrow> if p x then star_lazy p xs k else None)"

fun star_greedy :: "(char \<Rightarrow> bool) \<Rightarrow> string \<Rightarrow> (string \<Rightarrow> 'r option) \<Rightarrow> 'r option" where
  "star_greedy p [] k = k []"
| "star_greedy p (x # xs) k =
     (if p x
      then (case star_greedy p xs k of Some r \<Rightarrow> Some r | None \<Rightarrow> k (x # xs))
      else k (x # xs))"

primrec rmatch :: "rx \<Rightarrow> string \<Rightarrow> groups \<Rightarrow> (string \<Rightarrow> groups \<Rightarrow> 'r option) \<Rightarrow> 'r option" where
  "rmatch (Chr p) s g k = (case s of [] \<Rightarrow> None | x # xs \<Rightarrow> if p x then k xs g else None)"
| "rmatch Eps s g k = k s g"
| "rmatch (Seq a b) s g k = rmatch a s g (\<lambda>s' g'. rmatch b s' g' k)"
| "rmatch (Alt a b) s g k =
     (case rmatch a s g k of Some r \<Rightarrow> Some r | None \<Rightarrow> rmatch b s g k)"
| "rmatch (Opt a) s g k =
     (case rmatch a s g k of Some r \<Rightarrow> Some r | None \<Rightarrow> k s g)"
| "rmatch (Grp n a) s g k =
     rmatch a s g (\<lambda>s' g'. k s' (g'(n \<mapsto> take (length s - length s') s)))"
| "rmatch (StarLazy p) s g k = star_lazy p s (\<lambda>s'. k s' g)"
| "rmatch (StarGreedy p) s g k = star_greedy p s (\<lambda>s'. k s' g)"

text \<open>A literal string, \<open>[a-zA-Z0-9]\<close>, \<open>[0-9]\<close>, the dot (anything but a newline), \<open>c+\<close>.\<close>

definition lit :: "string \<Rightarrow> rx" where
  "lit xs = foldr (\<lambda>x r. Seq (Chr (\<lambda>y. y = x)) r) xs Eps"

definition alnum :: "char \<Rightarrow> bool" where
  "alnum c = (let n = (of_char c :: nat) in
     (97 \<le> n \<and> n \<le> 122) \<or> (65 \<le> n \<and> n \<le> 90) \<or> (48 \<le> n \<and> n \<le> 57))"

definition digit :: "char \<Rightarrow> bool" where
  "digit c = (let n = (of_char c :: nat) in 48 \<le> n \<and> n \<le> 57)"

definition dot :: "char \<Rightarrow> bool" where
  "dot c = (c \<noteq> CHR 0x0A)"

definition plus_greedy :: "(char \<Rightarrow> bool) \<Rightarrow> rx" where
  "plus_greedy p = Seq (Chr p) (StarGreedy p)"

text \<open>
  \<open>re.match(pattern, s)\<close>: a match that starts at the first character and may end
  anywhere. The result is the match object, or None.
\<close>

definition re_match :: "rx \<Rightarrow> string \<Rightarrow> (string \<times> groups) option" where
  "re_match r s = rmatch r s (\<lambda>n. None) (\<lambda>s' g. Some (s', g))"

text \<open>
  \<open>re.findall(pattern, s)\<close>: the matches from left to right, each search starting where
  the match before it ended (one character further after an empty match); for a
  pattern with several groups every match gives the texts of its groups, with the
  empty string for a group that took no part.
\<close>

function findall :: "rx \<Rightarrow> string \<Rightarrow> groups list" where
  "findall r s =
     (case re_match r s of
        None \<Rightarrow> (case s of [] \<Rightarrow> [] | x # xs \<Rightarrow> findall r xs)
      | Some (s', g) \<Rightarrow>
          g # (if length s' < length s then findall r s'
               else (case s of [] \<Rightarrow> [] | x # xs \<Rightarrow> findall r xs)))"
  by pat_completeness auto
termination
  by (relation "measure (\<lambda>(r, s). length s)") auto

declare findall.simps [simp del]

definition group :: "groups \<Rightarrow> nat \<Rightarrow> string" where
  "group g n = (case g n of None \<Rightarrow> [] | Some t \<Rightarrow> t)"

section \<open>The constructor of \<open>ImgurAlbumDownloader\<close>\<close>

subsection \<open>The album URL (lines 76 to 82)\<close>

text \<open>
  The pattern of line 77:
  \<^verbatim>\<open>(https?)\:\/\/(www\.)?(?:m\.)?imgur\.com/(?:(?:a|gallery)/)?([a-zA-Z0-9]+)(#[0-9]+)?\<close>
\<close>

definition album_url_pattern :: rx where
  "album_url_pattern =
     Seq (Grp 1 (Seq (lit ''http'') (Opt (lit ''s''))))
    (Seq (lit ''://'')
    (Seq (Opt (Grp 2 (lit ''www.'')))
    (Seq (Opt (lit ''m.''))
    (Seq (lit ''imgur.com/'')
    (Seq (Opt (Seq (Alt (lit ''a'') (lit ''gallery'')) (lit ''/'')))
    (Seq (Grp 3 (plus_greedy alnum))
         (Opt (Grp 4 (Seq (lit ''#'') (plus_greedy digit))))))))))"

text \<open>
  Lines 77 to 82: the exception of line 79 when nothing matches, else
  \<open>(match.group(1), match.group(3))\<close>, the protocol and the album key.
\<close>

definition validate_url :: "string \<Rightarrow> py_exn + string \<times> string" where
  "validate_url album_url =
     (case re_match album_url_pattern album_url of
        None \<Rightarrow> Inl (ImgurAlbumException (''URL must be a valid Imgur Album '' @ album_url))
      | Some (rest, g) \<Rightarrow> Inr (group g 1, group g 3))"

subsection \<open>The listing request (lines 84 to 108)\<close>

text \<open>
  What \<open>session.get\<close> gives: a response with its status code and its body, or an
  exception. The session (with its retries, headers, redirects and timeout) is the
  environment \<open>session_get\<close>, a function of the URL requested.
  \<open>not response\<close> is \<open>not response.ok\<close>, and \<open>ok\<close> is false for the status codes
  from 400 to 599.
\<close>

record response =
  status_code :: int
  content :: string

definition "text" :: "response \<Rightarrow> string" where
  "text r = content r"

definition ok :: "response \<Rightarrow> bool" where
  "ok r = (\<not> (400 \<le> status_code r \<and> status_code r < 600))"

definition fullListURL :: "string \<Rightarrow> string" where
  "fullListURL album_key = ''http://imgur.com/a/'' @ album_key @ ''/layout/blog''"

text \<open>
  Lines 100 to 108. In the handler of line 103, \<open>e.code\<close> is read before anything is
  raised: an exception without that attribute ends the constructor with AttributeError.
\<close>

definition read_listing :: "(string \<Rightarrow> py_exn + response) \<Rightarrow> string \<Rightarrow> py_exn + response" where
  "read_listing session_get url =
     (case session_get url of
        Inl e \<Rightarrow>
          (case exn_code e of
             None \<Rightarrow> Inl AttributeError
           | Some response_code \<Rightarrow>
               Inl (ImgurAlbumException
                 (''Error reading Imgur: Error Code '' @ str_int response_code)))
      | Inr r \<Rightarrow>
          if \<not> ok r \<or> status_code r \<noteq> 200
          then Inl (ImgurAlbumException
                 (''Error reading Imgur: Error Code '' @ str_int (status_code r)))
          else Inr r)"

subsection \<open>The images of the page (lines 110 to 123)\<close>

text \<open>
  Line 112. An element of \<open>extn\<close> is pattern text: a dot in it matches any character
  but a newline, a letter or digit matches itself. Elements with other characters that
  \<open>re\<close> reads as operators are outside this translation.
\<close>

definition ext_elem :: "string \<Rightarrow> rx" where
  "ext_elem e = foldr (\<lambda>x r. Seq (Chr (if x = CHR ''.'' then dot else (\<lambda>y. y = x))) r) e Eps"

fun join_alt :: "string list \<Rightarrow> rx" where
  "join_alt [] = Eps"
| "join_alt [e] = ext_elem e"
| "join_alt (e # es) = Alt (ext_elem e) (join_alt es)"

text \<open>
  \<open>extn\<close> is None or a list; \<open>if extn\<close> is false for None and for the empty list.
  With a list the text \<^verbatim>\<open>(\.(jpg|png))\<close> is built, else \<^verbatim>\<open>.*?\<close>.
\<close>

definition ext_regex :: "string list option \<Rightarrow> rx" where
  "ext_regex extn =
     (case extn of
        None \<Rightarrow> StarLazy dot
      | Some es \<Rightarrow>
          if es = [] then StarLazy dot
          else Grp 4 (Seq (lit ''.'') (Grp 5 (join_alt es))))"

text \<open>
  The pattern of line 113, around \<open>ext_regex\<close>:
  \<^verbatim>\<open>.*?{"hash":"([a-zA-Z0-9]+)".*?"ext":"(\.(\<close> ext_regex \<^verbatim>\<open>))".*?\<close>
\<close>

definition image_pattern :: "string list option \<Rightarrow> rx" where
  \<open>image_pattern extn =
     Seq (StarLazy dot)
    (Seq (lit ''{"hash":"'')
    (Seq (Grp 1 (plus_greedy alnum))
    (Seq (lit ''"'')
    (Seq (StarLazy dot)
    (Seq (lit ''"ext":"'')
    (Seq (Grp 2 (Seq (lit ''.'') (Grp 3 (ext_regex extn))))
    (Seq (lit ''"'')
         (StarLazy dot))))))))\<close>

text \<open>
  Line 116, \<open>list(set(...))\<close>. A set keeps one of equal elements and hands them out in
  the order of its hash table, which follows the hashes of the strings; these
  change from one run of the interpreter to the next. \<open>slot\<close> is that order for one
  run: the elements come out by increasing \<open>slot\<close>.
\<close>

definition list_of_set :: "('a \<Rightarrow> nat) \<Rightarrow> 'a list \<Rightarrow> 'a list" where
  "list_of_set slot xs = sort_key slot (remdups xs)"

definition find_imageIDs ::
  "((string \<times> string) \<Rightarrow> nat) \<Rightarrow> string list option \<Rightarrow> string \<Rightarrow> (string \<times> string) list" where
  "find_imageIDs slot extn html =
     list_of_set slot (map (\<lambda>i. (group i 1, group i 2)) (findall (image_pattern extn) html))"

text \<open>Lines 120 to 123: the Counter of the extensions, its keys in the order they came.\<close>

fun counter_incr :: "(string \<times> nat) list \<Rightarrow> string \<Rightarrow> (string \<times> nat) list" where
  "counter_incr [] x = [(x, 1)]"
| "counter_incr ((y, n) # c) x = (if x = y then (y, n + 1) # c else (y, n) # counter_incr c x)"

subsection \<open>The instance\<close>

text \<open>Callbacks are known by a number each; calling one is an event of the run.\<close>

record downloader =
  album_url :: string
  verbose :: bool
  image_callbacks :: "nat list"
  success_callbacks :: "nat list"
  complete_callbacks :: "nat list"
  protocol :: string
  album_key :: string
  response_of :: response
  imageIDs :: "(string \<times> string) list"
  imageURLs :: "string list"
  cnt :: "(string \<times> nat) list"

definition init ::
  "(string \<Rightarrow> py_exn + response) \<Rightarrow> ((string \<times> string) \<Rightarrow> nat) \<Rightarrow>
   string \<Rightarrow> string list option \<Rightarrow> bool \<Rightarrow> py_exn + downloader" where
  "init session_get slot url extn verb =
     (case validate_url url of
        Inl e \<Rightarrow> Inl e
      | Inr (proto, key) \<Rightarrow>
          (case read_listing session_get (fullListURL key) of
             Inl e \<Rightarrow> Inl e
           | Inr r \<Rightarrow>
               let ids = find_imageIDs slot extn (text r) in
               Inr \<lparr> album_url = url, verbose = verb,
                     image_callbacks = [], success_callbacks = [], complete_callbacks = [],
                     protocol = proto, album_key = key, response_of = r,
                     imageIDs = ids,
                     imageURLs = map (\<lambda>i. ''https://i.imgur.com/'' @ fst i @ snd i) ids,
                     cnt = foldl counter_incr [] (map snd ids) \<rparr>))"

definition num_images :: "downloader \<Rightarrow> nat" where
  "num_images d = length (imageIDs d)"

definition on_image_download :: "downloader \<Rightarrow> nat \<Rightarrow> downloader" where
  "on_image_download d callback = d\<lparr>image_callbacks := image_callbacks d @ [callback]\<rparr>"

definition on_download_success :: "downloader \<Rightarrow> nat \<Rightarrow> downloader" where
  "on_download_success d callback = d\<lparr>success_callbacks := success_callbacks d @ [callback]\<rparr>"

definition on_complete :: "downloader \<Rightarrow> nat \<Rightarrow> downloader" where
  "on_complete d callback = d\<lparr>complete_callbacks := complete_callbacks d @ [callback]\<rparr>"

subsection \<open>Attributes of an instance\<close>

text \<open>
  \<open>d.name\<close> looks in the instance's own dictionary first (what the constructor
  assigned to \<open>self\<close>) and in the class after it, where a function gives a bound
  method. Only strings and methods are told apart from the other objects here: of
  these only a method can be called. The names that every object has without the
  module writing them (\<open>__class__\<close>, \<open>__dict__\<close>, \<open>__doc__\<close> and the like) are not
  looked up here.
\<close>

datatype py_value = StrValue string | IntValue int | ObjectValue | BoundMethod string

definition instance_dict :: "downloader \<Rightarrow> string \<Rightarrow> py_value option" where
  "instance_dict d = map_of
     [(''album_url'', StrValue (album_url d)),
      (''verbose'', ObjectValue),
      (''image_callbacks'', ObjectValue),
      (''success_callbacks'', ObjectValue),
      (''complete_callbacks'', ObjectValue),
      (''protocol'', StrValue (protocol d)),
      (''album_key'', StrValue (album_key d)),
      (''session'', ObjectValue),
      (''headers'', ObjectValue),
      (''response'', ObjectValue),
      (''imageIDs'', ObjectValue),
      (''imageURLs'', ObjectValue),
      (''cnt'', ObjectValue)]"

definition class_functions :: "string list" where
  "class_functions =
     [''__init__'', ''num_images'', ''list_extensions'', ''album_key'', ''on_image_download'',
      ''on_download_success'', ''on_complete'', ''save_images'']"

definition getattr :: "downloader \<Rightarrow> string \<Rightarrow> py_exn + py_value" where
  "getattr d name =
     (case instance_dict d name of
        Some v \<Rightarrow> Inr v
      | None \<Rightarrow> if name \<in> set class_functions then Inr (BoundMethod name) else Inl AttributeError)"

text \<open>
  The bodies of the methods that can be called with no argument and read the instance
  only (lines 126 to 145); the registration methods lack their argument.
\<close>

definition call_method :: "downloader \<Rightarrow> string \<Rightarrow> py_exn + py_value" where
  "call_method d m =
     (if m = ''num_images'' then Inr (IntValue (int (num_images d)))
      else if m = ''list_extensions'' then Inr ObjectValue
      else if m = ''album_key'' then getattr d ''album_key''
      else if m = ''save_images'' then Inr ObjectValue
      else Inl TypeError)"

text \<open>\<open>d.name()\<close>: calling anything that is not a method raises TypeError.\<close>

definition call_attr :: "downloader \<Rightarrow> string \<Rightarrow> py_exn + py_value" where
  "call_attr d name =
     (case getattr d name of
        Inl e \<Rightarrow> Inl e
      | Inr (BoundMethod m) \<Rightarrow> call_method d m
      | Inr v \<Rightarrow> Inl TypeError)"

section \<open>\<open>save_images\<close> (lines 174 to 235)\<close>

text \<open>
  The world a run changes: the regular files of the disk, by path; the paths that
  name a directory; and the events of the run in their order: a callback called, a
  request sent, a line printed. \<open>denied w p\<close> is the exception with which the
  operating system answers an attempt to create the directory \<open>p\<close> or to write the
  file \<open>p\<close>, when it refuses: no permission, a parent that is missing or is no
  directory, a name it does not take, a disk that is full. It is given with the world
  and not worked out from the files and directories.
  A callback is observed only: the call is an event, it returns without an exception
  and leaves the instance and the disk as they are.
  The environment is \<open>session_get\<close>, as above, and \<open>image_size\<close>, the \<open>size\<close> of what
  \<open>Image.open\<close> makes of the bytes, or the exception of \<open>Image.open\<close>, of whatever class.
\<close>

datatype event =
    ImageCallback nat nat string string
  | SuccessCallback nat nat string string
  | CompleteCallback nat
  | HttpGet string
  | PrintSkipping string
  | PrintDownloadFailed py_exn

record world =
  files :: "string \<Rightarrow> string option"
  dirs :: "string \<Rightarrow> bool"
  denied :: "string \<Rightarrow> py_exn option"
  events :: "event list"

definition emit :: "event list \<Rightarrow> world \<Rightarrow> world" where
  "emit es w = w\<lparr>events := events w @ es\<rparr>"

definition isfile :: "world \<Rightarrow> string \<Rightarrow> bool" where
  "isfile w p = (files w p \<noteq> None)"

text \<open>\<open>os.path.exists(p)\<close>: a regular file or a directory; the empty path names nothing.\<close>

definition os_path_exists :: "world \<Rightarrow> string \<Rightarrow> bool" where
  "os_path_exists w p = (p \<noteq> [] \<and> (isfile w p \<or> dirs w p))"

text \<open>
  \<open>os.makedirs(p)\<close>: FileNotFoundError for the empty path, FileExistsError for a path
  that is there, the exception of the operating system when it refuses.
\<close>

definition os_makedirs :: "string \<Rightarrow> world \<Rightarrow> py_exn + world" where
  "os_makedirs p w =
     (if p = [] then Inl (OtherException ''FileNotFoundError'' None)
      else if os_path_exists w p then Inl (OtherException ''FileExistsError'' None)
      else case denied w p of
             Some e \<Rightarrow> Inl e
           | None \<Rightarrow> Inr (w\<lparr>dirs := (dirs w)(p := True)\<rparr>))"

text \<open>\<open>os.remove(p)\<close> removes a regular file and raises for anything else.\<close>

definition os_remove :: "string \<Rightarrow> world \<Rightarrow> py_exn + world" where
  "os_remove p w =
     (if isfile w p then Inr (w\<lparr>files := (files w)(p := None)\<rparr>)
      else if dirs w p then Inl (OtherException ''IsADirectoryError'' None)
      else Inl (OtherException ''FileNotFoundError'' None))"

text \<open>Lines 223 and 224: \<open>open(path, 'wb')\<close> and the write of the bytes.\<close>

definition write_file :: "string \<Rightarrow> string \<Rightarrow> world \<Rightarrow> py_exn + world" where
  "write_file p imageData w =
     (if dirs w p then Inl (OtherException ''IsADirectoryError'' None)
      else case denied w p of
             Some e \<Rightarrow> Inl e
           | None \<Rightarrow> Inr (w\<lparr>files := (files w)(p \<mapsto> imageData)\<rparr>))"

text \<open>\<open>os.path.join(a, b)\<close> of posixpath.\<close>

definition os_path_join :: "string \<Rightarrow> string \<Rightarrow> string" where
  "os_path_join a b =
     (if b \<noteq> [] \<and> hd b = CHR ''/'' then b
      else if a = [] \<or> last a = CHR ''/'' then a @ b
      else a @ ''/'' @ b)"

definition image_url :: "string \<times> string \<Rightarrow> string" where
  "image_url img = ''http://i.imgur.com/'' @ fst img @ snd img"

definition suffix :: "nat \<Rightarrow> string" where
  "suffix counter = ''_'' @ format_0_2 counter"

definition path :: "downloader \<Rightarrow> string \<Rightarrow> bool \<Rightarrow> nat \<Rightarrow> string \<times> string \<Rightarrow> string" where
  "path d folder useKey counter img =
     (if useKey then os_path_join folder (album_key d @ suffix counter @ snd img)
      else os_path_join folder (fst img @ suffix counter @ snd img))"

text \<open>The classes of the \<open>except\<close> clause of line 229.\<close>

fun caught :: "py_exn \<Rightarrow> bool" where
  "caught ConnectionError = True"
| "caught Timeout = True"
| "caught HTTPError = True"
| "caught RequestException = True"
| "caught TooManyRedirects = True"
| "caught UnidentifiedImageError = True"
| "caught MaxRetryError = True"
| "caught e = False"

text \<open>
  Lines 229 to 231, for an exception raised in the \<open>try\<close> block of lines 213 to 227;
  an exception of another class leaves \<open>save_images\<close>, and so does one that
  \<open>os.remove\<close> raises in the handler.
\<close>

definition download_failed :: "downloader \<Rightarrow> string \<Rightarrow> py_exn \<Rightarrow> world \<Rightarrow> py_exn + world" where
  "download_failed d p e w =
     (if caught e
      then (let w1 = (if verbose d then emit [PrintDownloadFailed e] w else w)
            in if os_path_exists w1 p then os_remove p w1 else Inr w1)
      else Inl e)"

text \<open>The body of the loop, lines 195 to 231, for one image and its counter.\<close>

definition save_image ::
  "(string \<Rightarrow> py_exn + response) \<Rightarrow> (string \<Rightarrow> py_exn + nat \<times> nat) \<Rightarrow>
   downloader \<Rightarrow> string \<Rightarrow> bool \<Rightarrow> nat \<Rightarrow> string \<times> string \<Rightarrow> world \<Rightarrow> py_exn + world" where
  "save_image session_get image_size d folder useKey counter img w =
     (let url = image_url img;
          p = path d folder useKey counter img;
          w1 = emit (map (\<lambda>fn. ImageCallback fn counter url p) (image_callbacks d)) w
      in if isfile w1 p
         then Inr (if verbose d then emit [PrintSkipping p] w1 else w1)
         else
           (let w2 = emit [HttpGet url] w1
            in case session_get url of
                 Inl e \<Rightarrow> download_failed d p e w2
               | Inr imageRequest \<Rightarrow>
                   (case image_size (content imageRequest) of
                      Inl e \<Rightarrow> download_failed d p e w2
                    | Inr (wd, h) \<Rightarrow>
                        if wd = 161 \<and> h = 81 then Inr w2
                        else
                          (case write_file p (content imageRequest) w2 of
                             Inl e \<Rightarrow> download_failed d p e w2
                           | Inr w3 \<Rightarrow>
                               Inr (emit (map (\<lambda>fn. SuccessCallback fn counter url p)
                                           (success_callbacks d)) w3)))))"

text \<open>The loop of line 194 over \<open>enumerate(self.imageIDs, start=1)\<close>.\<close>

fun save_loop ::
  "(string \<Rightarrow> py_exn + response) \<Rightarrow> (string \<Rightarrow> py_exn + nat \<times> nat) \<Rightarrow>
   downloader \<Rightarrow> string \<Rightarrow> bool \<Rightarrow> nat \<Rightarrow> (string \<times> string) list \<Rightarrow> world \<Rightarrow> py_exn + world" where
  "save_loop session_get image_size d folder useKey counter [] w = Inr w"
| "save_loop session_get image_size d folder useKey counter (img # imgs) w =
     (case save_image session_get image_size d folder useKey counter img w of
        Inl e \<Rightarrow> Inl e
      | Inr w' \<Rightarrow> save_loop session_get image_size d folder useKey (Suc counter) imgs w')"

text \<open>Lines 185 to 188: the folder given, or the album key.\<close>

definition albumFolder :: "downloader \<Rightarrow> string option \<Rightarrow> string" where
  "albumFolder d foldername = (case foldername of Some f \<Rightarrow> f | None \<Rightarrow> album_key d)"

text \<open>Lines 190 and 191: the folder is made when nothing is there under its name.\<close>

definition make_folder :: "string \<Rightarrow> world \<Rightarrow> py_exn + world" where
  "make_folder folder w = (if os_path_exists w folder then Inr w else os_makedirs folder w)"

text \<open>The whole method: the folder, the loop, and the calls of lines 234 and 235 after it.\<close>

definition save_images ::
  "(string \<Rightarrow> py_exn + response) \<Rightarrow> (string \<Rightarrow> py_exn + nat \<times> nat) \<Rightarrow>
   downloader \<Rightarrow> string option \<Rightarrow> bool \<Rightarrow> world \<Rightarrow> py_exn + world" where
  "save_images session_get image_size d foldername useKey w =
     (case make_folder (albumFolder d foldername) w of
        Inl e \<Rightarrow> Inl e
      | Inr w0 \<Rightarrow>
          (case save_loop session_get image_size d (albumFolder d foldername) useKey 1 (imageIDs d) w0 of
             Inl e \<Rightarrow> Inl e
           | Inr w' \<Rightarrow> Inr (emit (map CompleteCallback (complete_callbacks d)) w')))"

section \<open>Notions of the specification\<close>

text \<open>
  The transport-level failures of a request that the specification names: connection
  error, timeout, HTTP error, too many redirects, retries exhausted, and the general
  exception of requests.
\<close>

definition transport_failure :: "py_exn \<Rightarrow> bool" where
  "transport_failure e =
     (e = ConnectionError \<or> e = Timeout \<or> e = HTTPError \<or> e = TooManyRedirects
      \<or> e = MaxRetryError \<or> e = RequestException)"

text \<open>
  The outcome of one item, as the specification lists them (DownloadOutcome), read
  off a world, the URL of the item and its destination: the file is there already;
  or the request or the decoding of its body fails; or the body has the size of the
  placeholder; or the body is saved.
\<close>

datatype outcome = Saved string | SkippedExisting | SkippedPlaceholder | Failed py_exn

definition download_outcome ::
  "(string \<Rightarrow> py_exn + response) \<Rightarrow> (string \<Rightarrow> py_exn + nat \<times> nat) \<Rightarrow>
   world \<Rightarrow> string \<Rightarrow> string \<Rightarrow> outcome" where
  "download_outcome session_get image_size w url p =
     (if isfile w p then SkippedExisting
      else case session_get url of
             Inl e \<Rightarrow> Failed e
           | Inr r \<Rightarrow>
               (case image_size (content r) of
                  Inl e \<Rightarrow> Failed e
                | Inr wh \<Rightarrow> if wh = (161, 81) then SkippedPlaceholder else Saved (content r)))"

text \<open>
  What the specification has an item with a given outcome do: the first hook of every
  observer; no request when the file is there; a request, and then the success hook of
  every observer when the body is saved, none otherwise. The lines that a verbose
  instance prints are events too. The file at the destination is the body when it is
  saved, and what it was before in every other case.
\<close>

definition outcome_events :: "downloader \<Rightarrow> nat \<Rightarrow> string \<Rightarrow> string \<Rightarrow> outcome \<Rightarrow> event list" where
  "outcome_events d counter url p out =
     map (\<lambda>fn. ImageCallback fn counter url p) (image_callbacks d)
     @ (case out of
          SkippedExisting \<Rightarrow> (if verbose d then [PrintSkipping p] else [])
        | Failed e \<Rightarrow> HttpGet url # (if verbose d then [PrintDownloadFailed e] else [])
        | SkippedPlaceholder \<Rightarrow> [HttpGet url]
        | Saved body \<Rightarrow>
            HttpGet url # map (\<lambda>fn. SuccessCallback fn counter url p) (success_callbacks d))"

definition outcome_file :: "outcome \<Rightarrow> string option \<Rightarrow> string option" where
  "outcome_file out before = (case out of Saved body \<Rightarrow> Some body | _ \<Rightarrow> before)"

text \<open>
  The outcome and the events of the item with the given counter in a run of
  \<open>save_images\<close> that starts in the world \<open>w\<close>.
\<close>

definition item_outcome ::
  "(string \<Rightarrow> py_exn + response) \<Rightarrow> (string \<Rightarrow> py_exn + nat \<times> nat) \<Rightarrow>
   downloader \<Rightarrow> string \<Rightarrow> bool \<Rightarrow> world \<Rightarrow> nat \<times> string \<times> string \<Rightarrow> outcome" where
  "item_outcome session_get image_size d folder useKey w item =
     download_outcome session_get image_size w (image_url (snd item))
       (path d folder useKey (fst item) (snd item))"

definition item_events ::
  "(string \<Rightarrow> py_exn + response) \<Rightarrow> (string \<Rightarrow> py_exn + nat \<times> nat) \<Rightarrow>
   downloader \<Rightarrow> string \<Rightarrow> bool \<Rightarrow> world \<Rightarrow> nat \<times> string \<times> string \<Rightarrow> event list" where
  "item_events session_get image_size d folder useKey w item =
     outcome_events d (fst item) (image_url (snd item)) (path d folder useKey (fst item) (snd item))
       (item_outcome session_get image_size d folder useKey w item)"

text \<open>
  The disk lets a run through: the folder is there or can be made, and a destination
  whose file is not there names no directory and can be written.
\<close>

definition folder_ready :: "world \<Rightarrow> string \<Rightarrow> bool" where
  "folder_ready w folder = (os_path_exists w folder \<or> (folder \<noteq> [] \<and> denied w folder = None))"

definition can_save :: "world \<Rightarrow> string \<Rightarrow> bool" where
  "can_save w p = (isfile w p \<or> (\<not> dirs w p \<and> denied w p = None))"

text \<open>The kinds of events, and the calls of the first hook that one item brings.\<close>

fun is_image_callback :: "event \<Rightarrow> bool" where
  "is_image_callback (ImageCallback fn c u p) = True"
| "is_image_callback e = False"

fun is_success_callback :: "event \<Rightarrow> bool" where
  "is_success_callback (SuccessCallback fn c u p) = True"
| "is_success_callback e = False"

fun is_complete_callback :: "event \<Rightarrow> bool" where
  "is_complete_callback (CompleteCallback fn) = True"
| "is_complete_callback e = False"

fun is_http_get :: "event \<Rightarrow> bool" where
  "is_http_get (HttpGet u) = True"
| "is_http_get e = False"

definition image_callback_events ::
  "downloader \<Rightarrow> string \<Rightarrow> bool \<Rightarrow> nat \<Rightarrow> string \<times> string \<Rightarrow> event list" where
  "image_callback_events d folder useKey counter img =
     map (\<lambda>fn. ImageCallback fn counter (image_url img) (path d folder useKey counter img))
       (image_callbacks d)"

text \<open>What a pass through the loop adds to the events when the file is there already.\<close>

definition skip_events :: "downloader \<Rightarrow> string \<Rightarrow> bool \<Rightarrow> nat \<Rightarrow> string \<times> string \<Rightarrow> event list" where
  "skip_events d folder useKey counter img =
     image_callback_events d folder useKey counter img
     @ (if verbose d then [PrintSkipping (path d folder useKey counter img)] else [])"

text \<open>
  An image as the pattern of line 113 yields it: the id of letters and digits, the
  extension with its leading dot. An instance is well-formed when its album key is of
  letters and digits and its images are of this kind, as the constructor leaves them.
\<close>

definition well_formed_image :: "string \<times> string \<Rightarrow> bool" where
  "well_formed_image img =
     (fst img \<noteq> [] \<and> list_all alnum (fst img) \<and> snd img \<noteq> [] \<and> hd (snd img) = CHR ''.'')"

definition well_formed :: "downloader \<Rightarrow> bool" where
  "well_formed d =
     (album_key d \<noteq> [] \<and> list_all alnum (album_key d) \<and> list_all well_formed_image (imageIDs d))"

text \<open>
  The shape of an album URL, for a text as a whole: \<open>http\<close> or \<open>https\<close>, \<open>://\<close>,
  the host \<open>imgur.com\<close> with \<open>www.\<close> or the mobile \<open>m.\<close> before it or not, a slash,
  the segment \<open>a/\<close> or \<open>gallery/\<close> or none, a key of letters and digits, and a
  fragment \<open>#digits\<close> or nothing after it. The result is the protocol and the key.
\<close>

fun strip_prefix :: "string \<Rightarrow> string \<Rightarrow> string option" where
  "strip_prefix [] s = Some s"
| "strip_prefix (x # xs) [] = None"
| "strip_prefix (x # xs) (y # ys) = (if x = y then strip_prefix xs ys else None)"

definition fragment :: "string \<Rightarrow> bool" where
  "fragment s = (case s of [] \<Rightarrow> False | x # ds \<Rightarrow> x = CHR ''#'' \<and> ds \<noteq> [] \<and> list_all digit ds)"

definition strip_optional :: "string \<Rightarrow> string \<Rightarrow> string" where
  "strip_optional xs s = (case strip_prefix xs s of Some t \<Rightarrow> t | None \<Rightarrow> s)"

definition shape_key :: "string \<Rightarrow> string \<Rightarrow> (string \<times> string) option" where
  "shape_key proto s =
     (let key = takeWhile alnum s; rest = dropWhile alnum s
      in if key \<noteq> [] \<and> (rest = [] \<or> fragment rest) then Some (proto, key) else None)"

definition shape_host :: "string \<Rightarrow> string \<Rightarrow> (string \<times> string) option" where
  "shape_host proto s =
     (case strip_prefix ''://'' s of
        None \<Rightarrow> None
      | Some s1 \<Rightarrow>
          (case strip_prefix ''imgur.com/'' (strip_optional ''m.'' (strip_optional ''www.'' s1)) of
             None \<Rightarrow> None
           | Some s2 \<Rightarrow>
               shape_key proto
                 (case strip_prefix ''a/'' s2 of
                    Some t \<Rightarrow> t
                  | None \<Rightarrow> strip_optional ''gallery/'' s2)))"

definition album_url_shape :: "string \<Rightarrow> (string \<times> string) option" where
  "album_url_shape s =
     (case strip_prefix ''http'' s of
        None \<Rightarrow> None
      | Some s1 \<Rightarrow>
          (case strip_prefix ''s'' s1 of
             Some s2 \<Rightarrow> shape_host ''https'' s2
           | None \<Rightarrow> shape_host ''http'' s1))"

text \<open>
  A page of fragments. A fragment is the text \<open>{"hash":"<id>","ext":"<.ext>"}\<close> of
  an image whose id is of letters and digits and whose extension has its leading dot and
  neither a double quote nor a newline. A page is a sequence of fragments, each after
  some text in which the opening of a fragment, \<^verbatim>\<open>{"hash":"\<close>, does not occur,
  with such a text at its end.
\<close>

definition fragment_text :: "string \<times> string \<Rightarrow> string" where
  \<open>fragment_text img = ''{"hash":"'' @ fst img @ ''","ext":"'' @ snd img @ ''"}''\<close>

definition page_image :: "string \<times> string \<Rightarrow> bool" where
  "page_image img =
     (well_formed_image img \<and> list_all (\<lambda>c. c \<noteq> CHR 0x22 \<and> c \<noteq> CHR 0x0A) (snd img))"

fun page_text :: "string \<Rightarrow> bool" where
  "page_text [] = True"
| \<open>page_text (c # s) = (strip_prefix ''{"hash":"'' (c # s) = None \<and> page_text s)\<close>

definition page_of :: "(string \<times> string \<times> string) list \<Rightarrow> string \<Rightarrow> string" where
  "page_of parts end_text = concat (map (\<lambda>(before, img). before @ fragment_text img) parts) @ end_text"

section \<open>Notions of the proofs\<close>

subsection \<open>What a match says about the text\<close>

text \<open>
  The texts a pattern matches, as a relation: \<open>matches r s g s' g'\<close> when \<open>r\<close> matches
  a prefix of \<open>s\<close> and leaves \<open>s'\<close>, turning the groups \<open>g\<close> into \<open>g'\<close>. The matcher only
  finds matches of this relation.
\<close>

inductive matches :: "rx \<Rightarrow> string \<Rightarrow> groups \<Rightarrow> string \<Rightarrow> groups \<Rightarrow> bool" where
  m_Chr: "p x \<Longrightarrow> matches (Chr p) (x # xs) g xs g"
| m_Eps: "matches Eps s g s g"
| m_Seq: "matches a s g s1 g1 \<Longrightarrow> matches b s1 g1 s2 g2 \<Longrightarrow> matches (Seq a b) s g s2 g2"
| m_Alt1: "matches a s g s' g' \<Longrightarrow> matches (Alt a b) s g s' g'"
| m_Alt2: "matches b s g s' g' \<Longrightarrow> matches (Alt a b) s g s' g'"
| m_Opt1: "matches a s g s' g' \<Longrightarrow> matches (Opt a) s g s' g'"
| m_Opt2: "matches (Opt a) s g s g"
| m_Grp: "matches a s g s' g' \<Longrightarrow>
            matches (Grp n a) s g s' (g'(n \<mapsto> take (length s - length s') s))"
| m_StarLazy: "list_all p w \<Longrightarrow> matches (StarLazy p) (w @ s) g s g"
| m_StarGreedy: "list_all p w \<Longrightarrow> matches (StarGreedy p) (w @ s) g s g"

text \<open>The groups a pattern can set; a match leaves the others as they were.\<close>

primrec grps :: "rx \<Rightarrow> nat set" where
  "grps (Chr p) = {}"
| "grps Eps = {}"
| "grps (Seq a b) = grps a \<union> grps b"
| "grps (Alt a b) = grps a \<union> grps b"
| "grps (Opt a) = grps a"
| "grps (Grp n a) = insert n (grps a)"
| "grps (StarLazy p) = {}"
| "grps (StarGreedy p) = {}"

subsection \<open>The album URL pattern as a scan\<close>

text \<open>
  What the matcher does with the pattern of line 77, written as a scan of the text from
  left to right; each step tries what the pattern tries, in the same order. The
  result is group 1 and group 3 of the match.
\<close>

definition url_result :: "string \<Rightarrow> groups \<Rightarrow> (string \<times> string) option" where
  "url_result s g = Some (group g 1, group g 3)"

definition url_key :: "string \<Rightarrow> string \<Rightarrow> (string \<times> string) option" where
  "url_key p t = (if takeWhile alnum t = [] then None else Some (p, takeWhile alnum t))"

definition url_path :: "string \<Rightarrow> string \<Rightarrow> (string \<times> string) option" where
  "url_path p t =
     (case (case strip_prefix ''a/'' t of None \<Rightarrow> None | Some t' \<Rightarrow> url_key p t') of
        Some r \<Rightarrow> Some r
      | None \<Rightarrow>
          (case (case strip_prefix ''gallery/'' t of None \<Rightarrow> None | Some t' \<Rightarrow> url_key p t') of
             Some r \<Rightarrow> Some r
           | None \<Rightarrow> url_key p t))"

definition url_site :: "string \<Rightarrow> string \<Rightarrow> (string \<times> string) option" where
  "url_site p t = (case strip_prefix ''imgur.com/'' t of None \<Rightarrow> None | Some t' \<Rightarrow> url_path p t')"

definition url_mobile :: "string \<Rightarrow> string \<Rightarrow> (string \<times> string) option" where
  "url_mobile p t =
     (case (case strip_prefix ''m.'' t of None \<Rightarrow> None | Some t' \<Rightarrow> url_site p t') of
        Some r \<Rightarrow> Some r
      | None \<Rightarrow> url_site p t)"

definition url_host :: "string \<Rightarrow> string \<Rightarrow> (string \<times> string) option" where
  "url_host p t =
     (case strip_prefix ''://'' t of
        None \<Rightarrow> None
      | Some t1 \<Rightarrow>
          (case (case strip_prefix ''www.'' t1 of None \<Rightarrow> None | Some t2 \<Rightarrow> url_mobile p t2) of
             Some r \<Rightarrow> Some r
           | None \<Rightarrow> url_mobile p t1))"

definition scan_url :: "string \<Rightarrow> (string \<times> string) option" where
  "scan_url s =
     (case strip_prefix ''http'' s of
        None \<Rightarrow> None
      | Some s1 \<Rightarrow>
          (case (case strip_prefix ''s'' s1 of None \<Rightarrow> None | Some s2 \<Rightarrow> url_host ''https'' s2) of
             Some r \<Rightarrow> Some r
           | None \<Rightarrow> url_host ''http'' s1))"

subsection \<open>Reading a decimal number\<close>

definition decimal_value :: "string \<Rightarrow> nat" where
  "decimal_value s = foldl (\<lambda>a c. 10 * a + (of_char c - 48)) 0 s"

subsection \<open>The image pattern on a fragment\<close>

text \<open>The rest of the text with groups 1 and 2 of a match; a fragment without its closing brace.\<close>

definition image_result :: "string \<Rightarrow> groups \<Rightarrow> (string \<times> string \<times> string) option" where
  "image_result s g = Some (s, group g 1, group g 2)"

definition fragment_body :: "string \<Rightarrow> string \<Rightarrow> string" where
  \<open>fragment_body i e = ''{"hash":"'' @ i @ ''"'' @ '','' @ ''"ext":"'' @ ''.'' @ e @ ''"''\<close>

section \<open>An example run\<close>

text \<open>
  An album of five images. The second request fails with ConnectionError, the third
  returns a page that is no image, the fourth returns the placeholder of 161 by 81
  pixels, and the file of the fifth is on the disk already, in the folder of the album.
\<close>

definition example_page :: string where
  \<open>example_page =
     ''{"hash":"aaa","ext":".jpg"}{"hash":"bbb","ext":".png"}{"hash":"ccc","ext":".gif"}''
   @ ''{"hash":"ddd","ext":".jpg"}{"hash":"eee","ext":".jpg"}''\<close>

definition example_slot :: "string \<times> string \<Rightarrow> nat" where
  "example_slot img = of_char (hd (fst img))"

definition example_session_get :: "string \<Rightarrow> py_exn + response" where
  "example_session_get url =
     (if url = ''http://imgur.com/a/uOOju/layout/blog''
        then Inr \<lparr>status_code = 200, content = example_page\<rparr>
      else if url = ''http://i.imgur.com/bbb.png'' then Inl ConnectionError
      else if url = ''http://i.imgur.com/ccc.gif''
        then Inr \<lparr>status_code = 404, content = ''<html>''\<rparr>
      else if url = ''http://i.imgur.com/ddd.jpg''
        then Inr \<lparr>status_code = 200, content = ''removed''\<rparr>
      else Inr \<lparr>status_code = 200, content = ''JFIF''\<rparr>)"

definition example_image_size :: "string \<Rightarrow> py_exn + nat \<times> nat" where
  "example_image_size b =
     (if b = ''<html>'' then Inl UnidentifiedImageError
      else if b = ''removed'' then Inr (161, 81)
      else Inr (640, 480))"

definition example_downloader :: downloader where
  "example_downloader =
     \<lparr> album_url = ''http://imgur.com/a/uOOju'', verbose = True,
       image_callbacks = [1], success_callbacks = [2], complete_callbacks = [3],
       protocol = ''http'', album_key = ''uOOju'',
       response_of = \<lparr>status_code = 200, content = example_page\<rparr>,
       imageIDs = [(''aaa'', ''.jpg''), (''bbb'', ''.png''), (''ccc'', ''.gif''),
                   (''ddd'', ''.jpg''), (''eee'', ''.jpg'')],
       imageURLs = [''https://i.imgur.com/aaa.jpg'', ''https://i.imgur.com/bbb.png'',
                    ''https://i.imgur.com/ccc.gif'', ''https://i.imgur.com/ddd.jpg'',
                    ''https://i.imgur.com/eee.jpg''],
       cnt = [(''.jpg'', 3), (''.png'', 1), (''.gif'', 1)] \<rparr>"

definition example_world :: world where
  "example_world =
     \<lparr> files = [''uOOju/eee_05.jpg'' \<mapsto> ''old''],
       dirs = (\<lambda>p. p = ''uOOju''), denied = (\<lambda>p. None), events = [] \<rparr>"

definition example_result :: world where
  "example_result =
     \<lparr> files = [''uOOju/eee_05.jpg'' \<mapsto> ''old'', ''uOOju/aaa_01.jpg'' \<mapsto> ''JFIF''],
       dirs = (\<lambda>p. p = ''uOOju''), denied = (\<lambda>p. None),
       events =
         [ImageCallback 1 1 ''http://i.imgur.com/aaa.jpg'' ''uOOju/aaa_01.jpg'',
          HttpGet ''http://i.imgur.com/aaa.jpg'',
          SuccessCallback 2 1 ''http://i.imgur.com/aaa.jpg'' ''uOOju/aaa_01.jpg'',
          ImageCallback 1 2 ''http://i.imgur.com/bbb.png'' ''uOOju/bbb_02.png'',
          HttpGet ''http://i.imgur.com/bbb.png'',
          PrintDownloadFailed ConnectionError,
          ImageCallback 1 3 ''http://i.imgur.com/ccc.gif'' ''uOOju/ccc_03.gif'',
          HttpGet ''http://i.imgur.com/ccc.gif'',
          PrintDownloadFailed UnidentifiedImageError,
          ImageCallback 1 4 ''http://i.imgur.com/ddd.jpg'' ''uOOju/ddd_04.jpg'',
          HttpGet ''http://i.imgur.com/ddd.jpg'',
          ImageCallback 1 5 ''http://i.imgur.com/eee.jpg'' ''uOOju/eee_05.jpg'',
          PrintSkipping ''uOOju/eee_05.jpg'',
          CompleteCallback 3] \<rparr>"

text \<open>A service that has the listing at the https address and nothing else.\<close>

definition https_only_session_get :: "string \<Rightarrow> py_exn + response" where
  "https_only_session_get url =
     (if url = ''https://imgur.com/a/uOOju/layout/blog''
        then Inr \<lparr>status_code = 200, content = example_page\<rparr>
      else Inl ConnectionError)"


text \<open>A disk without the folder of the album and without any file.\<close>

definition empty_world :: world where
  "empty_world = \<lparr> files = (\<lambda>p. None), dirs = (\<lambda>p. False), denied = (\<lambda>p. None), events = [] \<rparr>"

section \<open>The listing request: what reaches the caller\<close>

lemma read_listing_bad_status:
  assumes "session_get url = Inr r" and "status_code r \<noteq> 200"
  shows "read_listing session_get url =
          Inl (ImgurAlbumException (''Error reading Imgur: Error Code '' @ str_int (status_code r)))"
  using assms by (simp add: read_listing_def)

lemma read_listing_no_code:
  assumes "session_get url = Inl e" and "exn_code e = None"
  shows "read_listing session_get url = Inl AttributeError"
  using assms by (simp add: read_listing_def)

text \<open>
  C7. When the listing request ends in a transport failure (here the ConnectionError
  that requests raises once the retries are used up), the constructor does not raise
  ImgurAlbumException: reading \<open>e.code\<close> in the handler raises AttributeError, and that
  is what leaves the constructor.
\<close>

theorem listing_transport_failure_escapes:
  "init (\<lambda>url. Inl ConnectionError) (\<lambda>i. 0) ''http://imgur.com/a/uOOju'' None False
     = Inl AttributeError"
  by code_simp

theorem listing_transport_failure_escapes_witness:
  "(case init (\<lambda>url. Inl ConnectionError) (\<lambda>i. 0) ''http://imgur.com/a/uOOju'' None False of
      Inl e \<Rightarrow> e = AttributeError \<and> e \<noteq> ImgurAlbumException ''Error reading Imgur: Error Code ''
    | Inr d \<Rightarrow> False)"
  using listing_transport_failure_escapes by simp

section \<open>The list of a set\<close>

lemma list_of_set_distinct: "distinct (list_of_set slot xs)"
  by (simp add: list_of_set_def)

lemma list_of_set_set: "set (list_of_set slot xs) = set xs"
  by (simp add: list_of_set_def)

lemma list_of_set_mset: "mset (list_of_set slot xs) = mset (remdups xs)"
  by (simp add: list_of_set_def)

lemma count_list_distinct:
  "distinct ys \<Longrightarrow> count_list ys p = (if p \<in> set ys then 1 else 0)"
  by (induction ys) auto

section \<open>The matcher finds matches only\<close>

inductive_cases matches_ChrE: "matches (Chr p) s g s' g'"
inductive_cases matches_EpsE: "matches Eps s g s' g'"
inductive_cases matches_SeqE: "matches (Seq a b) s g s' g'"
inductive_cases matches_AltE: "matches (Alt a b) s g s' g'"
inductive_cases matches_OptE: "matches (Opt a) s g s' g'"
inductive_cases matches_GrpE: "matches (Grp n a) s g s' g'"
inductive_cases matches_StarLazyE: "matches (StarLazy p) s g s' g'"
inductive_cases matches_StarGreedyE: "matches (StarGreedy p) s g s' g'"

lemma star_lazy_sound:
  "star_lazy p s k = Some res \<Longrightarrow> \<exists>w s'. s = w @ s' \<and> list_all p w \<and> k s' = Some res"
proof (induction s)
  case Nil
  then show ?case by auto
next
  case (Cons x xs)
  show ?case
  proof (cases "k (x # xs)")
    case (Some r)
    with Cons.prems have "k (x # xs) = Some res" by simp
    then have "x # xs = [] @ (x # xs) \<and> list_all p [] \<and> k (x # xs) = Some res" by simp
    then show ?thesis by blast
  next
    case None
    with Cons.prems have px: "p x" and "star_lazy p xs k = Some res"
      by (auto split: if_splits)
    with Cons.IH obtain w s' where "xs = w @ s'" "list_all p w" "k s' = Some res" by blast
    with px have "x # xs = (x # w) @ s' \<and> list_all p (x # w) \<and> k s' = Some res" by simp
    then show ?thesis by blast
  qed
qed

lemma star_greedy_sound:
  "star_greedy p s k = Some res \<Longrightarrow> \<exists>w s'. s = w @ s' \<and> list_all p w \<and> k s' = Some res"
proof (induction s)
  case Nil
  then show ?case by auto
next
  case (Cons x xs)
  have here: "\<exists>w s'. x # xs = w @ s' \<and> list_all p w \<and> k s' = Some res" if "k (x # xs) = Some res"
  proof -
    from that have "x # xs = [] @ (x # xs) \<and> list_all p [] \<and> k (x # xs) = Some res" by simp
    then show ?thesis by blast
  qed
  show ?case
  proof (cases "p x")
    case False
    with Cons.prems here show ?thesis by simp
  next
    case True
    show ?thesis
    proof (cases "star_greedy p xs k")
      case None
      with True Cons.prems here show ?thesis by simp
    next
      case (Some r)
      with True Cons.prems have "star_greedy p xs k = Some res" by simp
      with Cons.IH obtain w s' where "xs = w @ s'" "list_all p w" "k s' = Some res" by blast
      with True have "x # xs = (x # w) @ s' \<and> list_all p (x # w) \<and> k s' = Some res" by simp
      then show ?thesis by blast
    qed
  qed
qed

lemma rmatch_sound:
  "rmatch r s g k = Some res \<Longrightarrow> \<exists>s' g'. matches r s g s' g' \<and> k s' g' = Some res"
proof (induction r arbitrary: s g k)
  case (Chr p)
  then show ?case
    by (cases s) (auto split: if_splits intro: matches.intros)
next
  case Eps
  then show ?case by (auto intro: matches.intros)
next
  case (Seq a b)
  from Seq.prems have "rmatch a s g (\<lambda>s' g'. rmatch b s' g' k) = Some res" by simp
  from Seq.IH(1) [OF this] obtain s1 g1 where
    a: "matches a s g s1 g1" and "rmatch b s1 g1 k = Some res" by blast
  from Seq.IH(2) [OF this(2)] obtain s2 g2 where
    "matches b s1 g1 s2 g2" "k s2 g2 = Some res" by blast
  with a show ?case by (blast intro: matches.intros)
next
  case (Alt a b)
  show ?case
  proof (cases "rmatch a s g k")
    case (Some r)
    with Alt.prems have "rmatch a s g k = Some res" by simp
    from Alt.IH(1) [OF this] show ?thesis by (blast intro: matches.intros)
  next
    case None
    with Alt.prems have "rmatch b s g k = Some res" by simp
    from Alt.IH(2) [OF this] show ?thesis by (blast intro: matches.intros)
  qed
next
  case (Opt a)
  show ?case
  proof (cases "rmatch a s g k")
    case (Some r)
    with Opt.prems have "rmatch a s g k = Some res" by simp
    from Opt.IH [OF this] show ?thesis by (blast intro: matches.intros)
  next
    case None
    with Opt.prems have "k s g = Some res" by simp
    then show ?thesis by (blast intro: matches.intros)
  qed
next
  case (Grp n a)
  from Grp.prems
  have "rmatch a s g (\<lambda>s' g'. k s' (g'(n \<mapsto> take (length s - length s') s))) = Some res"
    by simp
  from Grp.IH [OF this] show ?case by (blast intro: matches.intros)
next
  case (StarLazy p)
  then have "star_lazy p s (\<lambda>s'. k s' g) = Some res" by simp
  from star_lazy_sound [OF this] show ?case by (blast intro: matches.intros)
next
  case (StarGreedy p)
  then have "star_greedy p s (\<lambda>s'. k s' g) = Some res" by simp
  from star_greedy_sound [OF this] show ?case by (blast intro: matches.intros)
qed

lemma re_match_sound:
  "re_match r s = Some (s', g) \<Longrightarrow> matches r s (\<lambda>n. None) s' g"
  using rmatch_sound [of r s "\<lambda>n. None" "\<lambda>s' g. Some (s', g)" "(s', g)"]
  by (auto simp: re_match_def)

text \<open>Matches consume a prefix: what is left is a suffix of the text.\<close>

lemma matches_suffix: "matches r s g s' g' \<Longrightarrow> \<exists>w. s = w @ s'"
  by (induction rule: matches.induct) auto

lemma matches_lit: "matches (lit xs) s g s' g' \<Longrightarrow> s = xs @ s' \<and> g' = g"
proof (induction xs arbitrary: s)
  case Nil
  then show ?case by (auto simp: lit_def elim: matches_EpsE)
next
  case (Cons x xs)
  from Cons.prems have "matches (Seq (Chr (\<lambda>y. y = x)) (lit xs)) s g s' g'"
    by (simp add: lit_def)
  then obtain s1 g1 where "matches (Chr (\<lambda>y. y = x)) s g s1 g1" "matches (lit xs) s1 g1 s' g'"
    by (auto elim: matches_SeqE)
  then have "s = x # s1" "g1 = g" "matches (lit xs) s1 g s' g'"
    by (auto elim: matches_ChrE)
  with Cons.IH show ?case by auto
qed

lemma matches_plus_greedy:
  "matches (plus_greedy p) s g s' g' \<Longrightarrow> \<exists>w. w \<noteq> [] \<and> list_all p w \<and> s = w @ s' \<and> g' = g"
proof -
  assume "matches (plus_greedy p) s g s' g'"
  then obtain s1 g1 where "matches (Chr p) s g s1 g1" "matches (StarGreedy p) s1 g1 s' g'"
    by (auto simp: plus_greedy_def elim: matches_SeqE)
  then obtain x w where "s = x # s1" "p x" "g1 = g" "s1 = w @ s'" "list_all p w" "g' = g"
    by (auto elim!: matches_ChrE matches_StarGreedyE)
  then have "x # w \<noteq> [] \<and> list_all p (x # w) \<and> s = (x # w) @ s' \<and> g' = g" by simp
  then show ?thesis by blast
qed

lemma matches_frame: "matches r s g s' g' \<Longrightarrow> n \<notin> grps r \<Longrightarrow> g' n = g n"
  by (induction rule: matches.induct) auto

lemma grps_lit [simp]: "grps (lit xs) = {}"
  by (induction xs) (simp_all add: lit_def)

lemma grps_plus_greedy [simp]: "grps (plus_greedy p) = {}"
  by (simp add: plus_greedy_def)

lemma grps_ext_elem [simp]: "grps (ext_elem e) = {}"
  by (induction e) (simp_all add: ext_elem_def)

lemma grps_join_alt [simp]: "grps (join_alt es) = {}"
  by (induction es rule: join_alt.induct) simp_all

lemma grps_ext_regex: "grps (ext_regex extn) \<subseteq> {4, 5}"
  by (auto simp: ext_regex_def split: option.splits)

text \<open>A group around a pattern holds the text that the pattern matched.\<close>

lemma matches_Grp:
  assumes "matches (Grp n a) s g s' g'"
  shows "\<exists>w g1. s = w @ s' \<and> matches a s g s' g1 \<and> g' = g1(n \<mapsto> w)"
proof -
  from assms obtain g1 where a: "matches a s g s' g1"
    and g': "g' = g1(n \<mapsto> take (length s - length s') s)"
    by (auto elim: matches_GrpE)
  from matches_suffix [OF a] obtain w where "s = w @ s'" by blast
  with a g' show ?thesis by auto
qed

subsection \<open>The images of a page are well-formed\<close>

lemma image_pattern_groups:
  assumes "matches (image_pattern extn) s g s' g'"
  shows "well_formed_image (group g' 1, group g' 2)"
proof -
  let ?ext = "Grp 2 (Seq (lit ''.'') (Grp 3 (ext_regex extn)))"
  from assms obtain s1 g1 s2 g2 s3 g3 s4 g4 s5 g5 s6 g6 s7 g7 where
    m3: "matches (Grp 1 (plus_greedy alnum)) s2 g2 s3 g3"
    and m4: "matches (lit [CHR 0x22]) s3 g3 s4 g4"
    and m5: "matches (StarLazy dot) s4 g4 s5 g5"
    and m6: "matches (lit [CHR 0x22, CHR ''e'', CHR ''x'', CHR ''t'', CHR 0x22, CHR '':'', CHR 0x22]) s5 g5 s6 g6"
    and m7: "matches ?ext s6 g6 s7 g7"
    and m8: "matches (lit [CHR 0x22]) s7 g7 s1 g1"
    and m9: "matches (StarLazy dot) s1 g1 s' g'"
    unfolding image_pattern_def by (elim matches_SeqE) blast
  from matches_Grp [OF m3] obtain w ga where
    w: "s2 = w @ s3" "matches (plus_greedy alnum) s2 g2 s3 ga" "g3 = ga(1 \<mapsto> w)"
    by blast
  from matches_plus_greedy [OF w(2)] w(1) have wa: "w \<noteq> []" "list_all alnum w"
    by auto
  from matches_Grp [OF m7] obtain e gb where
    e: "s6 = e @ s7" "matches (Seq (lit ''.'') (Grp 3 (ext_regex extn))) s6 g6 s7 gb"
       "g7 = gb(2 \<mapsto> e)"
    by blast
  from e(2) obtain sd gd where
    d: "matches (lit ''.'') s6 g6 sd gd" and x: "matches (Grp 3 (ext_regex extn)) sd gd s7 gb"
    by (auto elim: matches_SeqE)
  from matches_lit [OF d] have sd: "s6 = ''.'' @ sd" "gd = g6" by auto
  from matches_suffix [OF x] obtain v where "sd = v @ s7" by blast
  with sd e(1) have ev: "e = ''.'' @ v" by simp
  have one: "1 \<notin> grps (Grp 3 (ext_regex extn))"
    using grps_ext_regex [of extn] by auto
  have g31: "g3 1 = Some w" using w(3) by simp
  have "g4 = g3" using matches_lit [OF m4] by simp
  moreover have "g5 1 = g4 1" using matches_frame [OF m5, of 1] by simp
  moreover have "g6 = g5" using matches_lit [OF m6] by simp
  moreover have "gb 1 = gd 1" using matches_frame [OF x one] .
  ultimately have gb1: "gb 1 = Some w" using g31 sd(2) by simp
  have "g1 = g7" using matches_lit [OF m8] by simp
  moreover have "g' 1 = g1 1" "g' 2 = g1 2"
    using matches_frame [OF m9, of 1] matches_frame [OF m9, of 2] by simp_all
  ultimately have "g' 1 = g7 1" "g' 2 = g7 2" by simp_all
  with e(3) gb1 have "g' 1 = Some w" "g' 2 = Some e" by simp_all
  with wa ev show ?thesis
    by (simp add: well_formed_image_def group_def)
qed

lemma findall_matches:
  "g \<in> set (findall r s) \<Longrightarrow> \<exists>t s'. re_match r t = Some (s', g)"
proof (induction r s rule: findall.induct)
  case (1 r s)
  show ?case
  proof (cases "re_match r s")
    case None
    with "1.prems" obtain x xs where s: "s = x # xs" and "g \<in> set (findall r xs)"
      by (subst (asm) findall.simps) (auto split: list.splits)
    with "1.IH"(1) [OF None s] show ?thesis by blast
  next
    case (Some m)
    obtain s' g0 where m: "m = (s', g0)" by (cases m)
    show ?thesis
    proof (cases "g = g0")
      case True
      with Some m show ?thesis by blast
    next
      case False
      show ?thesis
      proof (cases "length s' < length s")
        case True
        with False Some m "1.prems" have "g \<in> set (findall r s')"
          by (subst (asm) findall.simps) simp
        with "1.IH"(2) [OF Some m [symmetric] True] show ?thesis by blast
      next
        case nl: False
        with False Some m "1.prems" obtain x xs where s: "s = x # xs" and "g \<in> set (findall r xs)"
          by (subst (asm) findall.simps) (auto split: list.splits)
        with "1.IH"(3) [OF Some m [symmetric] nl s] show ?thesis by blast
      qed
    qed
  qed
qed

lemma find_imageIDs_well_formed: "list_all well_formed_image (find_imageIDs slot extn html)"
proof -
  have "well_formed_image (group g 1, group g 2)" if "g \<in> set (findall (image_pattern extn) html)" for g
  proof -
    from findall_matches [OF that] obtain t s' where "re_match (image_pattern extn) t = Some (s', g)"
      by blast
    from image_pattern_groups [OF re_match_sound [OF this]] show ?thesis .
  qed
  then show ?thesis
    by (auto simp: find_imageIDs_def list_of_set_set list_all_iff)
qed

section \<open>The album URL pattern as a scan\<close>

lemma strip_prefix_Some: "strip_prefix xs s = Some t \<longleftrightarrow> s = xs @ t"
  by (induction xs s rule: strip_prefix.induct) auto

lemma strip_prefix_append [simp]: "strip_prefix xs (xs @ t) = Some t"
  by (simp add: strip_prefix_Some)

lemma rmatch_lit:
  "rmatch (lit xs) s g k = (case strip_prefix xs s of None \<Rightarrow> None | Some t \<Rightarrow> k t g)"
proof (induction xs s rule: strip_prefix.induct)
  case (1 s)
  then show ?case by (simp add: lit_def)
next
  case (2 x xs)
  then show ?case by (simp add: lit_def)
next
  case (3 x xs y ys)
  then show ?case by (auto simp: lit_def)
qed

lemma star_greedy_total:
  assumes "\<And>t. k t \<noteq> None"
  shows "star_greedy p s k = k (dropWhile p s)"
proof (induction s)
  case Nil
  then show ?case by simp
next
  case (Cons x xs)
  from assms [of "dropWhile p xs"] obtain r where "k (dropWhile p xs) = Some r" by auto
  with Cons show ?case by simp
qed

lemma length_take_drop_While: "length xs = length (takeWhile p xs) + length (dropWhile p xs)"
proof -
  have "length xs = length (takeWhile p xs @ dropWhile p xs)" by simp
  then show ?thesis by (simp only: length_append)
qed

lemma take_length_takeWhile: "take (length (takeWhile p xs)) xs = takeWhile p xs"
proof -
  have "take (length (takeWhile p xs)) (takeWhile p xs @ dropWhile p xs) = takeWhile p xs"
    by (rule append_eq_conv_conj [THEN iffD1, THEN conjunct1, symmetric]) (rule refl)
  then show ?thesis by simp
qed

lemma rmatch_plus_greedy_total:
  assumes "\<And>t h. k t h \<noteq> None"
  shows "rmatch (Grp n (plus_greedy p)) s g k =
           (if takeWhile p s = [] then None
            else k (dropWhile p s) (g(n \<mapsto> takeWhile p s)))"
proof (cases s)
  case Nil
  then show ?thesis by (simp add: plus_greedy_def)
next
  case (Cons x xs)
  show ?thesis
  proof (cases "p x")
    case False
    with Cons show ?thesis by (simp add: plus_greedy_def)
  next
    case True
    have len: "length (x # xs) - length (dropWhile p xs) = Suc (length (takeWhile p xs))"
      using length_take_drop_While [of xs p] by simp
    have tk: "take (Suc (length (takeWhile p xs))) (x # xs) = x # takeWhile p xs"
      by (simp add: take_length_takeWhile)
    have tot: "\<And>t. k t (g(n \<mapsto> take (length (x # xs) - length t) (x # xs))) \<noteq> None"
      by (rule assms)
    have "rmatch (Grp n (plus_greedy p)) (x # xs) g k
        = star_greedy p xs (\<lambda>t. k t (g(n \<mapsto> take (length (x # xs) - length t) (x # xs))))"
      using True by (simp add: plus_greedy_def)
    also have "\<dots> = k (dropWhile p xs)
        (g(n \<mapsto> take (length (x # xs) - length (dropWhile p xs)) (x # xs)))"
      by (rule star_greedy_total) (rule assms)
    finally show ?thesis
      using True Cons by (simp only: len tk) simp
  qed
qed

lemma star_lazy_map_option:
  "star_lazy p s (\<lambda>t. map_option f (k t)) = map_option f (star_lazy p s k)"
  by (induction s) (auto split: option.splits)

lemma star_greedy_map_option:
  "star_greedy p s (\<lambda>t. map_option f (k t)) = map_option f (star_greedy p s k)"
  by (induction s) (auto split: option.splits)

lemma rmatch_map_option:
  "rmatch r s g (\<lambda>t h. map_option f (k t h)) = map_option f (rmatch r s g k)"
proof (induction r arbitrary: s g k)
  case (Chr p)
  then show ?case by (cases s) auto
next
  case (Seq a b)
  then show ?case by simp
next
  case (Alt a b)
  then show ?case by (auto split: option.splits)
next
  case (Opt a)
  then show ?case by (auto split: option.splits)
next
  case (Grp n a)
  have "rmatch a s g (\<lambda>s' g'. map_option f (k s' (g'(n \<mapsto> take (length s - length s') s))))
      = map_option f (rmatch a s g (\<lambda>s' g'. k s' (g'(n \<mapsto> take (length s - length s') s))))"
    by (rule Grp.IH)
  then show ?case by simp
next
  case (StarLazy p)
  then show ?case by (simp add: star_lazy_map_option)
next
  case (StarGreedy p)
  then show ?case by (simp add: star_greedy_map_option)
qed simp

lemma url_result_fun: "url_result = (\<lambda>t h. Some (group h 1, group h 3))"
  by (rule ext)+ (simp add: url_result_def)

lemma validate_url_rmatch:
  "validate_url u =
     (case rmatch album_url_pattern u (\<lambda>n. None) url_result of
        None \<Rightarrow> Inl (ImgurAlbumException (''URL must be a valid Imgur Album '' @ u))
      | Some pk \<Rightarrow> Inr pk)"
proof -
  let ?f = "\<lambda>(t, h). (group h 1, group h 3)"
  have "rmatch album_url_pattern u (\<lambda>n. None) (\<lambda>t h. map_option ?f (Some (t, h)))
      = map_option ?f (rmatch album_url_pattern u (\<lambda>n. None) (\<lambda>t h. Some (t, h)))"
    by (rule rmatch_map_option)
  then have "rmatch album_url_pattern u (\<lambda>n. None) url_result
      = map_option ?f (re_match album_url_pattern u)"
    by (simp add: url_result_fun re_match_def)
  then show ?thesis
    by (auto simp: validate_url_def split: option.splits)
qed

lemma strip_prefix_append2:
  "strip_prefix (xs @ ys) s = (case strip_prefix xs s of None \<Rightarrow> None | Some t \<Rightarrow> strip_prefix ys t)"
  by (induction xs s rule: strip_prefix.induct) auto

lemma rmatch_lit_lit:
  "rmatch (lit xs) s g (\<lambda>s' g'. rmatch (lit ys) s' g' k)
     = (case strip_prefix (xs @ ys) s of None \<Rightarrow> None | Some t \<Rightarrow> k t g)"
  by (simp add: rmatch_lit strip_prefix_append2 split: option.splits)

lemma url_fragment_step:
  "rmatch (Opt (Grp 4 (Seq (lit ''#'') (plus_greedy digit)))) t g url_result
     = Some (group g 1, group g 3)"
proof (cases "rmatch (Grp 4 (Seq (lit ''#'') (plus_greedy digit))) t g url_result")
  case None
  then show ?thesis by (simp add: url_result_def)
next
  case (Some r)
  from rmatch_sound [OF Some] obtain s' g' where
    m: "matches (Grp 4 (Seq (lit ''#'') (plus_greedy digit))) t g s' g'"
    and r: "url_result s' g' = Some r" by blast
  have "g' 1 = g 1" "g' 3 = g 3"
    using matches_frame [OF m, of 1] matches_frame [OF m, of 3] by simp_all
  with r have "r = (group g 1, group g 3)"
    by (simp add: url_result_def group_def)
  with Some show ?thesis by simp
qed

lemma url_key_step:
  "rmatch (Seq (Grp 3 (plus_greedy alnum)) (Opt (Grp 4 (Seq (lit ''#'') (plus_greedy digit)))))
      t g url_result
     = url_key (group g 1) t"
proof -
  have "rmatch (Seq (Grp 3 (plus_greedy alnum)) (Opt (Grp 4 (Seq (lit ''#'') (plus_greedy digit)))))
      t g url_result
    = rmatch (Grp 3 (plus_greedy alnum)) t g
        (\<lambda>s' g'. rmatch (Opt (Grp 4 (Seq (lit ''#'') (plus_greedy digit)))) s' g' url_result)"
    by (rule rmatch.simps)
  also have "\<dots> = rmatch (Grp 3 (plus_greedy alnum)) t g (\<lambda>s' g'. Some (group g' 1, group g' 3))"
    by (simp only: url_fragment_step)
  also have "\<dots> = (if takeWhile alnum t = [] then None
         else Some (group (g(3 \<mapsto> takeWhile alnum t)) 1, group (g(3 \<mapsto> takeWhile alnum t)) 3))"
    by (rule rmatch_plus_greedy_total) simp
  finally show ?thesis
    by (simp add: url_key_def group_def)
qed

lemma url_path_step:
  "rmatch (Seq (Opt (Seq (Alt (lit ''a'') (lit ''gallery'')) (lit ''/'')))
          (Seq (Grp 3 (plus_greedy alnum)) (Opt (Grp 4 (Seq (lit ''#'') (plus_greedy digit))))))
      t g url_result
     = url_path (group g 1) t"
proof -
  let ?key = "Seq (Grp 3 (plus_greedy alnum)) (Opt (Grp 4 (Seq (lit ''#'') (plus_greedy digit))))"
  have "rmatch (Seq (Opt (Seq (Alt (lit ''a'') (lit ''gallery'')) (lit ''/''))) ?key) t g url_result
    = rmatch (Opt (Seq (Alt (lit ''a'') (lit ''gallery'')) (lit ''/''))) t g
        (\<lambda>s' g'. rmatch ?key s' g' url_result)"
    by (rule rmatch.simps)
  also have "\<dots> = rmatch (Opt (Seq (Alt (lit ''a'') (lit ''gallery'')) (lit ''/''))) t g
        (\<lambda>s' g'. url_key (group g' 1) s')"
    by (simp only: url_key_step)
  also have "\<dots> = url_path (group g 1) t"
    by (simp add: rmatch_lit_lit url_path_def split: option.splits)
  finally show ?thesis .
qed

lemma url_site_step:
  "rmatch (Seq (lit ''imgur.com/'')
          (Seq (Opt (Seq (Alt (lit ''a'') (lit ''gallery'')) (lit ''/'')))
          (Seq (Grp 3 (plus_greedy alnum)) (Opt (Grp 4 (Seq (lit ''#'') (plus_greedy digit)))))))
      t g url_result
     = url_site (group g 1) t"
proof -
  let ?path = "Seq (Opt (Seq (Alt (lit ''a'') (lit ''gallery'')) (lit ''/'')))
          (Seq (Grp 3 (plus_greedy alnum)) (Opt (Grp 4 (Seq (lit ''#'') (plus_greedy digit)))))"
  have "rmatch (Seq (lit ''imgur.com/'') ?path) t g url_result
    = rmatch (lit ''imgur.com/'') t g (\<lambda>s' g'. rmatch ?path s' g' url_result)"
    by (rule rmatch.simps)
  also have "\<dots> = rmatch (lit ''imgur.com/'') t g (\<lambda>s' g'. url_path (group g' 1) s')"
    by (simp only: url_path_step)
  also have "\<dots> = url_site (group g 1) t"
    by (simp add: rmatch_lit url_site_def)
  finally show ?thesis .
qed

lemma url_mobile_step:
  "rmatch (Seq (Opt (lit ''m.''))
          (Seq (lit ''imgur.com/'')
          (Seq (Opt (Seq (Alt (lit ''a'') (lit ''gallery'')) (lit ''/'')))
          (Seq (Grp 3 (plus_greedy alnum)) (Opt (Grp 4 (Seq (lit ''#'') (plus_greedy digit))))))))
      t g url_result
     = url_mobile (group g 1) t"
proof -
  let ?site = "Seq (lit ''imgur.com/'')
          (Seq (Opt (Seq (Alt (lit ''a'') (lit ''gallery'')) (lit ''/'')))
          (Seq (Grp 3 (plus_greedy alnum)) (Opt (Grp 4 (Seq (lit ''#'') (plus_greedy digit))))))"
  have "rmatch (Seq (Opt (lit ''m.'')) ?site) t g url_result
    = rmatch (Opt (lit ''m.'')) t g (\<lambda>s' g'. rmatch ?site s' g' url_result)"
    by (rule rmatch.simps)
  also have "\<dots> = rmatch (Opt (lit ''m.'')) t g (\<lambda>s' g'. url_site (group g' 1) s')"
    by (simp only: url_site_step)
  also have "\<dots> = url_mobile (group g 1) t"
    by (simp add: rmatch_lit url_mobile_def split: option.splits)
  finally show ?thesis .
qed

lemma url_host_step:
  "rmatch (Seq (lit ''://'')
          (Seq (Opt (Grp 2 (lit ''www.'')))
          (Seq (Opt (lit ''m.''))
          (Seq (lit ''imgur.com/'')
          (Seq (Opt (Seq (Alt (lit ''a'') (lit ''gallery'')) (lit ''/'')))
          (Seq (Grp 3 (plus_greedy alnum)) (Opt (Grp 4 (Seq (lit ''#'') (plus_greedy digit))))))))))
      t g url_result
     = url_host (group g 1) t"
proof -
  let ?mobile = "Seq (Opt (lit ''m.''))
          (Seq (lit ''imgur.com/'')
          (Seq (Opt (Seq (Alt (lit ''a'') (lit ''gallery'')) (lit ''/'')))
          (Seq (Grp 3 (plus_greedy alnum)) (Opt (Grp 4 (Seq (lit ''#'') (plus_greedy digit)))))))"
  have www: "rmatch (Seq (Opt (Grp 2 (lit ''www.''))) ?mobile) s h url_result
      = (case (case strip_prefix ''www.'' s of None \<Rightarrow> None | Some t2 \<Rightarrow> url_mobile (group h 1) t2) of
           Some r \<Rightarrow> Some r
         | None \<Rightarrow> url_mobile (group h 1) s)" for s h
  proof -
    have "rmatch (Seq (Opt (Grp 2 (lit ''www.''))) ?mobile) s h url_result
      = rmatch (Opt (Grp 2 (lit ''www.''))) s h (\<lambda>s' g'. rmatch ?mobile s' g' url_result)"
      by (rule rmatch.simps)
    also have "\<dots> = rmatch (Opt (Grp 2 (lit ''www.''))) s h (\<lambda>s' g'. url_mobile (group g' 1) s')"
      by (simp only: url_mobile_step)
    also have "\<dots> = (case (case strip_prefix ''www.'' s of None \<Rightarrow> None
                               | Some t2 \<Rightarrow> url_mobile (group h 1) t2) of
           Some r \<Rightarrow> Some r
         | None \<Rightarrow> url_mobile (group h 1) s)"
      by (simp add: rmatch_lit group_def split: option.splits)
    finally show ?thesis .
  qed
  have "rmatch (Seq (lit ''://'') (Seq (Opt (Grp 2 (lit ''www.''))) ?mobile)) t g url_result
    = rmatch (lit ''://'') t g
        (\<lambda>s' g'. rmatch (Seq (Opt (Grp 2 (lit ''www.''))) ?mobile) s' g' url_result)"
    by (rule rmatch.simps)
  also have "\<dots> = url_host (group g 1) t"
    by (simp only: www) (simp add: rmatch_lit url_host_def split: option.splits)
  finally show ?thesis .
qed

lemma url_scan_step: "rmatch album_url_pattern s (\<lambda>n. None) url_result = scan_url s"
proof -
  let ?host = "Seq (lit ''://'')
          (Seq (Opt (Grp 2 (lit ''www.'')))
          (Seq (Opt (lit ''m.''))
          (Seq (lit ''imgur.com/'')
          (Seq (Opt (Seq (Alt (lit ''a'') (lit ''gallery'')) (lit ''/'')))
          (Seq (Grp 3 (plus_greedy alnum)) (Opt (Grp 4 (Seq (lit ''#'') (plus_greedy digit)))))))))"
  have "rmatch album_url_pattern s (\<lambda>n. None) url_result
    = rmatch (Grp 1 (Seq (lit ''http'') (Opt (lit ''s'')))) s (\<lambda>n. None)
        (\<lambda>s' g'. rmatch ?host s' g' url_result)"
    unfolding album_url_pattern_def by (rule rmatch.simps)
  also have "\<dots> = rmatch (Grp 1 (Seq (lit ''http'') (Opt (lit ''s'')))) s (\<lambda>n. None)
        (\<lambda>s' g'. url_host (group g' 1) s')"
    by (simp only: url_host_step)
  also have "\<dots> = scan_url s"
  proof (cases "strip_prefix ''http'' s")
    case None
    then show ?thesis by (simp add: rmatch_lit scan_url_def)
  next
    case (Some s1)
    then have s: "s = ''http'' @ s1" by (simp add: strip_prefix_Some)
    show ?thesis
    proof (cases "strip_prefix ''s'' s1")
      case None
      with Some s show ?thesis
        by (simp add: rmatch_lit scan_url_def group_def)
    next
      case s2: (Some s2)
      then have "s1 = ''s'' @ s2" by (simp add: strip_prefix_Some)
      with Some s2 s show ?thesis
        by (simp add: rmatch_lit scan_url_def group_def split: option.splits)
    qed
  qed
  finally show ?thesis .
qed

lemma validate_url_scan:
  "validate_url u =
     (case scan_url u of
        None \<Rightarrow> Inl (ImgurAlbumException (''URL must be a valid Imgur Album '' @ u))
      | Some pk \<Rightarrow> Inr pk)"
  by (simp add: validate_url_rmatch url_scan_step)

subsection \<open>What the scan accepts\<close>

lemma url_key_Some:
  "url_key p t = Some (q, k) \<longleftrightarrow> q = p \<and> k = takeWhile alnum t \<and> k \<noteq> []"
  by (auto simp: url_key_def)

lemma url_path_parts:
  assumes "url_path p t = Some (q, k)"
  shows "q = p \<and> k \<noteq> [] \<and>
         (\<exists>seg t'. t = seg @ t' \<and> (seg = [] \<or> seg = ''a/'' \<or> seg = ''gallery/'')
            \<and> k = takeWhile alnum t')"
proof -
  from assms consider
      t' where "strip_prefix ''a/'' t = Some t'" "url_key p t' = Some (q, k)"
    | t' where "strip_prefix ''gallery/'' t = Some t'" "url_key p t' = Some (q, k)"
    | "url_key p t = Some (q, k)"
    by (auto simp: url_path_def split: option.splits)
  then show ?thesis
  proof cases
    case 1
    then have "t = ''a/'' @ t'" by (simp add: strip_prefix_Some)
    with 1(2) show ?thesis unfolding url_key_Some by blast
  next
    case 2
    then have "t = ''gallery/'' @ t'" by (simp add: strip_prefix_Some)
    with 2(2) show ?thesis unfolding url_key_Some by blast
  next
    case 3
    then have "t = [] @ t" by simp
    with 3 show ?thesis unfolding url_key_Some by blast
  qed
qed

lemma url_site_parts:
  assumes "url_site p t = Some (q, k)"
  shows "q = p \<and> k \<noteq> [] \<and>
         (\<exists>seg t'. t = ''imgur.com/'' @ seg @ t'
            \<and> (seg = [] \<or> seg = ''a/'' \<or> seg = ''gallery/'') \<and> k = takeWhile alnum t')"
proof -
  from assms obtain t1 where "strip_prefix ''imgur.com/'' t = Some t1" "url_path p t1 = Some (q, k)"
    by (auto simp: url_site_def split: option.splits)
  then have "t = ''imgur.com/'' @ t1" by (simp add: strip_prefix_Some)
  with url_path_parts [OF \<open>url_path p t1 = Some (q, k)\<close>] show ?thesis by auto
qed

lemma url_mobile_parts:
  assumes "url_mobile p t = Some (q, k)"
  shows "q = p \<and> k \<noteq> [] \<and>
         (\<exists>m seg t'. t = m @ ''imgur.com/'' @ seg @ t' \<and> (m = [] \<or> m = ''m.'')
            \<and> (seg = [] \<or> seg = ''a/'' \<or> seg = ''gallery/'') \<and> k = takeWhile alnum t')"
proof -
  from assms consider
      t1 where "strip_prefix ''m.'' t = Some t1" "url_site p t1 = Some (q, k)"
    | "url_site p t = Some (q, k)"
    by (auto simp: url_mobile_def split: option.splits)
  then show ?thesis
  proof cases
    case 1
    then have "t = ''m.'' @ t1" by (simp add: strip_prefix_Some)
    with url_site_parts [OF 1(2)] show ?thesis by blast
  next
    case 2
    then have "t = [] @ t" by simp
    with url_site_parts [OF 2] show ?thesis by (metis append_Nil)
  qed
qed

lemma url_host_parts:
  assumes "url_host p t = Some (q, k)"
  shows "q = p \<and> k \<noteq> [] \<and>
         (\<exists>www m seg t'. t = ''://'' @ www @ m @ ''imgur.com/'' @ seg @ t'
            \<and> (www = [] \<or> www = ''www.'') \<and> (m = [] \<or> m = ''m.'')
            \<and> (seg = [] \<or> seg = ''a/'' \<or> seg = ''gallery/'') \<and> k = takeWhile alnum t')"
proof -
  from assms obtain t1 where t1: "strip_prefix ''://'' t = Some t1"
    and "(\<exists>t2. strip_prefix ''www.'' t1 = Some t2 \<and> url_mobile p t2 = Some (q, k))
         \<or> url_mobile p t1 = Some (q, k)"
    by (auto simp: url_host_def split: option.splits)
  then consider
      t2 where "strip_prefix ''www.'' t1 = Some t2" "url_mobile p t2 = Some (q, k)"
    | "url_mobile p t1 = Some (q, k)"
    by blast
  then show ?thesis
  proof cases
    case 1
    with t1 have "t = ''://'' @ ''www.'' @ t2" by (simp add: strip_prefix_Some)
    with url_mobile_parts [OF 1(2)] show ?thesis by blast
  next
    case 2
    with t1 have "t = ''://'' @ [] @ t1" by (simp add: strip_prefix_Some)
    with url_mobile_parts [OF 2] show ?thesis by blast
  qed
qed

lemma scan_url_parts:
  assumes "scan_url s = Some (q, k)"
  shows "(q = ''http'' \<or> q = ''https'') \<and> k \<noteq> [] \<and>
         (\<exists>www m seg t'. s = q @ ''://'' @ www @ m @ ''imgur.com/'' @ seg @ t'
            \<and> (www = [] \<or> www = ''www.'') \<and> (m = [] \<or> m = ''m.'')
            \<and> (seg = [] \<or> seg = ''a/'' \<or> seg = ''gallery/'') \<and> k = takeWhile alnum t')"
proof -
  from assms obtain s1 where s1: "strip_prefix ''http'' s = Some s1"
    and "(\<exists>s2. strip_prefix ''s'' s1 = Some s2 \<and> url_host ''https'' s2 = Some (q, k))
         \<or> url_host ''http'' s1 = Some (q, k)"
    by (auto simp: scan_url_def split: option.splits)
  then consider
      s2 where "strip_prefix ''s'' s1 = Some s2" "url_host ''https'' s2 = Some (q, k)"
    | "url_host ''http'' s1 = Some (q, k)"
    by blast
  then show ?thesis
  proof cases
    case 1
    with s1 have "s = ''https'' @ s2" by (simp add: strip_prefix_Some)
    with url_host_parts [OF 1(2)] show ?thesis by auto
  next
    case 2
    with s1 have "s = ''http'' @ s1" by (simp add: strip_prefix_Some)
    with url_host_parts [OF 2] show ?thesis by auto
  qed
qed

lemma scan_url_key: "scan_url s = Some (q, k) \<Longrightarrow> k \<noteq> [] \<and> list_all alnum k"
  using scan_url_parts [of s q k] by (auto simp: list_all_iff dest: set_takeWhileD)

lemma strip_prefix_alnum:
  assumes "list_all alnum k" and "\<exists>c \<in> set xs. \<not> alnum c"
  shows "strip_prefix xs k = None"
proof (cases "strip_prefix xs k")
  case None
  then show ?thesis .
next
  case (Some t)
  then have "k = xs @ t" by (simp add: strip_prefix_Some)
  with assms show ?thesis by (auto simp: list_all_iff)
qed

lemma not_alnum_slash: "\<not> alnum (CHR ''/'')"
  by (simp add: alnum_def)

lemma shape_key_alnum:
  assumes "k \<noteq> []" and "list_all alnum k"
  shows "shape_key q k = Some (q, k)"
proof -
  have tw: "takeWhile alnum k = k" "dropWhile alnum k = []"
    using assms(2) by (simp_all add: list_all_iff)
  show ?thesis
    unfolding shape_key_def Let_def tw using assms(1) by simp
qed

lemma shape_host_parts:
  assumes www: "www = [] \<or> www = ''www.''"
    and m: "m = [] \<or> m = ''m.''"
    and seg: "seg = [] \<or> seg = ''a/'' \<or> seg = ''gallery/''"
    and k: "k \<noteq> []" "list_all alnum k"
  shows "shape_host q (''://'' @ www @ m @ ''imgur.com/'' @ seg @ k) = Some (q, k)"
proof -
  have a: "strip_prefix ''a/'' k = None" and g: "strip_prefix ''gallery/'' k = None"
    using k(2) not_alnum_slash by (auto intro!: strip_prefix_alnum)
  have path: "(case strip_prefix ''a/'' (seg @ k) of
                 Some t \<Rightarrow> t | None \<Rightarrow> strip_optional ''gallery/'' (seg @ k)) = k"
    using seg by (auto simp: a g strip_optional_def)
  have mob: "strip_optional ''m.'' (m @ ''imgur.com/'' @ seg @ k) = ''imgur.com/'' @ seg @ k"
    using m by (auto simp: strip_optional_def)
  have host: "strip_optional ''www.'' (www @ m @ ''imgur.com/'' @ seg @ k)
      = m @ ''imgur.com/'' @ seg @ k"
    using www m by (auto simp: strip_optional_def)
  have site: "strip_prefix ''imgur.com/'' (''imgur.com/'' @ seg @ k) = Some (seg @ k)"
    by (rule strip_prefix_append)
  have sep: "strip_prefix ''://'' (''://'' @ www @ m @ ''imgur.com/'' @ seg @ k)
      = Some (www @ m @ ''imgur.com/'' @ seg @ k)"
    by (rule strip_prefix_append)
  show ?thesis
    unfolding shape_host_def sep option.case host mob site path
    by (rule shape_key_alnum [OF k])
qed

lemma album_url_shape_parts:
  assumes q: "q = ''http'' \<or> q = ''https''"
    and www: "www = [] \<or> www = ''www.''"
    and m: "m = [] \<or> m = ''m.''"
    and seg: "seg = [] \<or> seg = ''a/'' \<or> seg = ''gallery/''"
    and k: "k \<noteq> []" "list_all alnum k"
  shows "album_url_shape (q @ ''://'' @ www @ m @ ''imgur.com/'' @ seg @ k) = Some (q, k)"
proof -
  let ?t = "''://'' @ www @ m @ ''imgur.com/'' @ seg @ k"
  from q show ?thesis
  proof
    assume "q = ''http''"
    then have "album_url_shape (q @ ?t) = shape_host ''http'' ?t"
      by (simp add: album_url_shape_def)
    with \<open>q = ''http''\<close> shape_host_parts [OF www m seg k, of "''http''"] show ?thesis by simp
  next
    assume "q = ''https''"
    then have "album_url_shape (q @ ?t) = shape_host ''https'' ?t"
      by (simp add: album_url_shape_def)
    with \<open>q = ''https''\<close> shape_host_parts [OF www m seg k, of "''https''"] show ?thesis by simp
  qed
qed

text \<open>A match of the pattern is the shape of a prefix of the text.\<close>

lemma scan_url_prefix:
  assumes "scan_url s = Some (q, k)"
  shows "\<exists>pre rest. s = pre @ rest \<and> album_url_shape pre = Some (q, k)"
proof -
  from scan_url_parts [OF assms] obtain www m seg t' where
    q: "q = ''http'' \<or> q = ''https''" and k: "k \<noteq> []"
    and s: "s = q @ ''://'' @ www @ m @ ''imgur.com/'' @ seg @ t'"
    and p: "www = [] \<or> www = ''www.''" "m = [] \<or> m = ''m.''"
      "seg = [] \<or> seg = ''a/'' \<or> seg = ''gallery/''"
    and kt: "k = takeWhile alnum t'"
    by blast
  from kt have al: "list_all alnum k"
    by (auto simp: list_all_iff dest: set_takeWhileD)
  have "t' = k @ dropWhile alnum t'" using kt by simp
  with s have "s = (q @ ''://'' @ www @ m @ ''imgur.com/'' @ seg @ k) @ dropWhile alnum t'"
    by simp
  with album_url_shape_parts [OF q p k al] show ?thesis by blast
qed

text \<open>A text of the shape, as a whole, is matched, and with its own protocol and key.\<close>

lemma shape_key_scan: "shape_key p t = Some r \<Longrightarrow> url_key p t = Some r"
  by (auto simp: shape_key_def url_key_def Let_def split: if_splits)

lemma shape_path_scan:
  assumes "shape_key p (case strip_prefix ''a/'' t of
                          Some t' \<Rightarrow> t' | None \<Rightarrow> strip_optional ''gallery/'' t) = Some r"
  shows "url_path p t = Some r"
proof (cases "strip_prefix ''a/'' t")
  case (Some t')
  with assms have "url_key p t' = Some r" by (simp add: shape_key_scan)
  with Some show ?thesis by (simp add: url_path_def)
next
  case None
  show ?thesis
  proof (cases "strip_prefix ''gallery/'' t")
    case (Some t')
    with None assms have "url_key p t' = Some r"
      by (simp add: shape_key_scan strip_optional_def)
    with None Some show ?thesis by (simp add: url_path_def)
  next
    case n: None
    with None assms have "url_key p t = Some r"
      by (simp add: shape_key_scan strip_optional_def)
    with None n show ?thesis by (simp add: url_path_def)
  qed
qed

lemma shape_mobile_scan:
  assumes "url_site p (strip_optional ''m.'' t) = Some r"
  shows "url_mobile p t = Some r"
  using assms by (cases "strip_prefix ''m.'' t") (simp_all add: strip_optional_def url_mobile_def)

lemma shape_host_scan:
  assumes "shape_host p t = Some r"
  shows "url_host p t = Some r"
proof -
  from assms obtain t1 t2 where t1: "strip_prefix ''://'' t = Some t1"
    and t2: "strip_prefix ''imgur.com/'' (strip_optional ''m.'' (strip_optional ''www.'' t1)) = Some t2"
    and key: "shape_key p (case strip_prefix ''a/'' t2 of
                             Some t' \<Rightarrow> t' | None \<Rightarrow> strip_optional ''gallery/'' t2) = Some r"
    by (auto simp: shape_host_def split: option.splits)
  from shape_path_scan [OF key] t2
  have "url_site p (strip_optional ''m.'' (strip_optional ''www.'' t1)) = Some r"
    by (simp add: url_site_def)
  then have mob: "url_mobile p (strip_optional ''www.'' t1) = Some r"
    by (rule shape_mobile_scan)
  show ?thesis
  proof (cases "strip_prefix ''www.'' t1")
    case None
    with mob t1 show ?thesis by (simp add: url_host_def strip_optional_def)
  next
    case (Some t')
    with mob t1 show ?thesis by (simp add: url_host_def strip_optional_def)
  qed
qed

lemma album_url_shape_scan:
  assumes "album_url_shape s = Some r"
  shows "scan_url s = Some r"
proof -
  from assms obtain s1 where s1: "strip_prefix ''http'' s = Some s1"
    by (auto simp: album_url_shape_def split: option.splits)
  show ?thesis
  proof (cases "strip_prefix ''s'' s1")
    case None
    with assms s1 have "url_host ''http'' s1 = Some r"
      by (simp add: album_url_shape_def shape_host_scan)
    with None s1 show ?thesis by (simp add: scan_url_def)
  next
    case (Some s2)
    with assms s1 have "url_host ''https'' s2 = Some r"
      by (simp add: album_url_shape_def shape_host_scan)
    with Some s1 show ?thesis by (simp add: scan_url_def)
  qed
qed

text \<open>What follows a matched text does not take the match away.\<close>

lemma strip_prefix_mono:
  "strip_prefix xs t = Some t' \<Longrightarrow> strip_prefix xs (t @ r) = Some (t' @ r)"
  by (simp add: strip_prefix_Some)

lemma url_key_mono: "url_key p t \<noteq> None \<Longrightarrow> url_key p (t @ r) \<noteq> None"
  by (cases t) (auto simp: url_key_def split: if_splits)

lemma url_path_mono:
  assumes "url_path p t \<noteq> None"
  shows "url_path p (t @ r) \<noteq> None"
proof -
  from assms consider
      t' where "strip_prefix ''a/'' t = Some t'" "url_key p t' \<noteq> None"
    | t' where "strip_prefix ''gallery/'' t = Some t'" "url_key p t' \<noteq> None"
    | "url_key p t \<noteq> None"
    by (auto simp: url_path_def split: option.splits)
  then show ?thesis
  proof cases
    case 1
    from strip_prefix_mono [OF 1(1), of r] url_key_mono [OF 1(2), of r]
    show ?thesis by (auto simp: url_path_def split: option.splits)
  next
    case 2
    from strip_prefix_mono [OF 2(1), of r] url_key_mono [OF 2(2), of r]
    show ?thesis by (auto simp: url_path_def split: option.splits)
  next
    case 3
    from url_key_mono [OF 3, of r]
    show ?thesis by (auto simp: url_path_def split: option.splits)
  qed
qed

lemma url_site_mono:
  assumes "url_site p t \<noteq> None"
  shows "url_site p (t @ r) \<noteq> None"
proof -
  from assms obtain t' where t': "strip_prefix ''imgur.com/'' t = Some t'" "url_path p t' \<noteq> None"
    by (auto simp: url_site_def split: option.splits)
  from strip_prefix_mono [OF t'(1), of r] url_path_mono [OF t'(2), of r]
  show ?thesis by (simp add: url_site_def)
qed

lemma url_mobile_mono:
  assumes "url_mobile p t \<noteq> None"
  shows "url_mobile p (t @ r) \<noteq> None"
proof -
  from assms consider
      t' where "strip_prefix ''m.'' t = Some t'" "url_site p t' \<noteq> None"
    | "url_site p t \<noteq> None"
    by (auto simp: url_mobile_def split: option.splits)
  then show ?thesis
  proof cases
    case 1
    from strip_prefix_mono [OF 1(1), of r] url_site_mono [OF 1(2), of r]
    show ?thesis by (auto simp: url_mobile_def split: option.splits)
  next
    case 2
    from url_site_mono [OF 2, of r]
    show ?thesis by (auto simp: url_mobile_def split: option.splits)
  qed
qed

lemma url_host_mono:
  assumes "url_host p t \<noteq> None"
  shows "url_host p (t @ r) \<noteq> None"
proof -
  from assms obtain t1 where t1: "strip_prefix ''://'' t = Some t1"
    and "(\<exists>t2. strip_prefix ''www.'' t1 = Some t2 \<and> url_mobile p t2 \<noteq> None)
         \<or> url_mobile p t1 \<noteq> None"
    by (auto simp: url_host_def split: option.splits)
  then consider
      t2 where "strip_prefix ''www.'' t1 = Some t2" "url_mobile p t2 \<noteq> None"
    | "url_mobile p t1 \<noteq> None"
    by blast
  then show ?thesis
  proof cases
    case 1
    from strip_prefix_mono [OF t1, of r] strip_prefix_mono [OF 1(1), of r] url_mobile_mono [OF 1(2), of r]
    show ?thesis by (auto simp: url_host_def split: option.splits)
  next
    case 2
    from strip_prefix_mono [OF t1, of r] url_mobile_mono [OF 2, of r]
    show ?thesis by (auto simp: url_host_def split: option.splits)
  qed
qed

lemma url_host_protocol: "url_host p t = Some (q, k) \<Longrightarrow> q = p"
  using url_host_parts by blast

lemma scan_url_mono:
  assumes "scan_url s = Some (p, k)"
  shows "\<exists>k'. scan_url (s @ r) = Some (p, k')"
proof -
  from assms obtain s1 where s1: "strip_prefix ''http'' s = Some s1"
    by (auto simp: scan_url_def split: option.splits)
  note s1r = strip_prefix_mono [OF s1, of r]
  from assms s1 consider
      s2 where "strip_prefix ''s'' s1 = Some s2" "url_host ''https'' s2 = Some (p, k)"
    | "url_host ''http'' s1 = Some (p, k)"
      "\<forall>s2. strip_prefix ''s'' s1 = Some s2 \<longrightarrow> url_host ''https'' s2 = None"
    by (auto simp: scan_url_def split: option.splits)
  then show ?thesis
  proof cases
    case 1
    then have p: "p = ''https''" by (simp add: url_host_protocol)
    from 1(2) have "url_host ''https'' (s2 @ r) \<noteq> None"
      by (intro url_host_mono) simp
    then obtain q k' where "url_host ''https'' (s2 @ r) = Some (q, k')" by auto
    moreover from this have "q = ''https''" by (rule url_host_protocol)
    ultimately show ?thesis
      using s1r strip_prefix_mono [OF 1(1), of r] p by (simp add: scan_url_def)
  next
    case 2
    then have p: "p = ''http''" by (simp add: url_host_protocol)
    from 2(1) obtain t where "strip_prefix ''://'' s1 = Some t"
      by (auto simp: url_host_def split: option.splits)
    then have "s1 = ''://'' @ t" by (simp add: strip_prefix_Some)
    then have no: "strip_prefix ''s'' (s1 @ r) = None" by simp
    from 2(1) have "url_host ''http'' (s1 @ r) \<noteq> None"
      by (intro url_host_mono) simp
    then obtain q k' where "url_host ''http'' (s1 @ r) = Some (q, k')" by auto
    moreover from this have "q = ''http''" by (rule url_host_protocol)
    ultimately show ?thesis
      using s1r no p by (simp add: scan_url_def)
  qed
qed

section \<open>The album URL\<close>

text \<open>
  C4. The claim fails for texts that go on after a matching prefix: \<open>re.match\<close> does
  not ask for the end of the text. The URL below has not the shape of an album URL, and
  the constructor takes it, with the protocol and key of its prefix.
\<close>

theorem trailing_text_accepted:
  "album_url_shape ''https://imgur.com/a/abc?<script>'' = None
   \<and> validate_url ''https://imgur.com/a/abc?<script>'' = Inr (''https'', ''abc'')"
  by code_simp

text \<open>
  C4, as the code has it. A text that has the shape of an album URL as a whole is
  accepted with exactly its protocol and key. A text is accepted when a prefix of it has
  the shape, whatever follows; the pair recovered is then the protocol and key of a
  prefix of that shape. A text no prefix of which has the shape is refused with
  ImgurAlbumException, whose message ends with the text.
\<close>

theorem validate_url_prefix_match:
  "(\<forall>p k. album_url_shape url = Some (p, k) \<longrightarrow> validate_url url = Inr (p, k))
   \<and> (\<forall>p k. validate_url url = Inr (p, k) \<longrightarrow>
          (\<exists>pre rest. url = pre @ rest \<and> album_url_shape pre = Some (p, k)))
   \<and> (\<forall>pre rest p k. url = pre @ rest \<and> album_url_shape pre = Some (p, k) \<longrightarrow>
          (\<exists>k'. validate_url url = Inr (p, k')))
   \<and> ((\<forall>pre rest. url = pre @ rest \<longrightarrow> album_url_shape pre = None) \<longrightarrow>
          validate_url url = Inl (ImgurAlbumException (''URL must be a valid Imgur Album '' @ url)))"
proof (intro conjI allI impI)
  fix p k
  assume "album_url_shape url = Some (p, k)"
  then show "validate_url url = Inr (p, k)"
    by (simp add: validate_url_scan album_url_shape_scan)
next
  fix p k
  assume "validate_url url = Inr (p, k)"
  then have "scan_url url = Some (p, k)"
    by (simp add: validate_url_scan split: option.splits)
  then show "\<exists>pre rest. url = pre @ rest \<and> album_url_shape pre = Some (p, k)"
    by (rule scan_url_prefix)
next
  fix pre rest p k
  assume "url = pre @ rest \<and> album_url_shape pre = Some (p, k)"
  then have "url = pre @ rest" "scan_url pre = Some (p, k)"
    by (simp_all add: album_url_shape_scan)
  with scan_url_mono [of pre p k rest] show "\<exists>k'. validate_url url = Inr (p, k')"
    by (auto simp: validate_url_scan)
next
  assume none: "\<forall>pre rest. url = pre @ rest \<longrightarrow> album_url_shape pre = None"
  have "scan_url url = None"
  proof (cases "scan_url url")
    case None
    then show ?thesis .
  next
    case (Some r)
    obtain p k where "r = (p, k)" by (cases r)
    with Some scan_url_prefix [of url p k] none show ?thesis by auto
  qed
  then show "validate_url url = Inl (ImgurAlbumException (''URL must be a valid Imgur Album '' @ url))"
    by (simp add: validate_url_scan)
qed

lemma album_url_shape_http: "album_url_shape s = Some r \<Longrightarrow> \<exists>t. s = ''http'' @ t"
  by (auto simp: album_url_shape_def strip_prefix_Some split: option.splits)

theorem validate_url_prefix_match_witness:
  "validate_url ''https://imgur.com/a/uOOju#6'' = Inr (''https'', ''uOOju'')
   \<and> (\<exists>pre rest. ''https://imgur.com/a/abc?<script>'' = pre @ rest
         \<and> album_url_shape pre = Some (''https'', ''abc''))
   \<and> (\<exists>k'. validate_url ''http://imgur.com/gallery/abc/zip'' = Inr (''http'', k'))
   \<and> validate_url ''ftp://imgur.com/a/abc''
       = Inl (ImgurAlbumException ''URL must be a valid Imgur Album ftp://imgur.com/a/abc'')"
proof -
  have 1: "album_url_shape ''https://imgur.com/a/uOOju#6'' = Some (''https'', ''uOOju'')"
    by code_simp
  have 2: "validate_url ''https://imgur.com/a/abc?<script>'' = Inr (''https'', ''abc'')"
    by code_simp
  have 3: "''http://imgur.com/gallery/abc/zip'' = ''http://imgur.com/gallery/abc'' @ ''/zip''
      \<and> album_url_shape ''http://imgur.com/gallery/abc'' = Some (''http'', ''abc'')"
    by code_simp
  have 4: "\<forall>pre rest. ''ftp://imgur.com/a/abc'' = pre @ rest \<longrightarrow> album_url_shape pre = None"
  proof (intro allI impI)
    fix pre rest
    assume eq: "''ftp://imgur.com/a/abc'' = pre @ rest"
    show "album_url_shape pre = None"
    proof (cases "album_url_shape pre")
      case None
      then show ?thesis .
    next
      case (Some r)
      from album_url_shape_http [OF this] obtain t where "pre = ''http'' @ t" by blast
      with eq show ?thesis by simp
    qed
  qed
  from validate_url_prefix_match [of "''https://imgur.com/a/uOOju#6''"] 1
  have a: "validate_url ''https://imgur.com/a/uOOju#6'' = Inr (''https'', ''uOOju'')"
    by blast
  from validate_url_prefix_match [of "''https://imgur.com/a/abc?<script>''"] 2
  have b: "\<exists>pre rest. ''https://imgur.com/a/abc?<script>'' = pre @ rest
         \<and> album_url_shape pre = Some (''https'', ''abc'')"
    by blast
  from validate_url_prefix_match [of "''http://imgur.com/gallery/abc/zip''"] 3
  have c: "\<exists>k'. validate_url ''http://imgur.com/gallery/abc/zip'' = Inr (''http'', k')"
    by blast
  from validate_url_prefix_match [of "''ftp://imgur.com/a/abc''"] 4
  have d: "validate_url ''ftp://imgur.com/a/abc''
       = Inl (ImgurAlbumException (''URL must be a valid Imgur Album '' @ ''ftp://imgur.com/a/abc''))"
    by blast
  from a b c d show ?thesis by simp
qed

section \<open>The image pattern on a page of fragments\<close>

lemma star_lazy_first: "k s = Some r \<Longrightarrow> star_lazy p s k = Some r"
  by (cases s) simp_all

lemma star_lazy_skip:
  assumes "list_all p w" and "\<And>c s'. c \<in> set w \<Longrightarrow> k (c # s') = None"
  shows "star_lazy p (w @ t) k = star_lazy p t k"
  using assms by (induction w) simp_all

text \<open>Text in which no fragment opens, before a text that begins with an opening brace.\<close>

lemma strip_prefix_straddle:
  assumes "strip_prefix xs u = None" and "c \<notin> set xs"
  shows "strip_prefix xs (u @ c # r) = None"
  using assms by (induction xs u rule: strip_prefix.induct) auto

lemma fragment_start_straddle:
  assumes \<open>strip_prefix ''{"hash":"'' (c # s) = None\<close>
  shows \<open>strip_prefix ''{"hash":"'' (c # s @ CHR ''{'' # r) = None\<close>
proof (cases "c = CHR ''{''")
  case True
  with assms have \<open>strip_prefix ''"hash":"'' s = None\<close>
    by simp
  then have \<open>strip_prefix ''"hash":"'' (s @ CHR ''{'' # r) = None\<close>
    by (rule strip_prefix_straddle) simp
  with True show ?thesis
    by simp
next
  case False
  then show ?thesis
    by simp
qed

lemma page_text_append:
  assumes "list_all (\<lambda>c. c \<noteq> CHR ''{'') pre" and "page_text s"
  shows "page_text (pre @ s)"
  using assms by (induction pre) auto

lemma star_lazy_page_text:
  assumes "page_text w" and "list_all p w"
    and k: \<open>\<And>s. strip_prefix ''{"hash":"'' s = None \<Longrightarrow> k s = None\<close>
  shows "star_lazy p (w @ CHR ''{'' # r) k = star_lazy p (CHR ''{'' # r) k"
  using assms(1,2)
proof (induction w)
  case Nil
  then show ?case by simp
next
  case (Cons c w)
  then have \<open>strip_prefix ''{"hash":"'' (c # w @ CHR ''{'' # r) = None\<close>
    by (intro fragment_start_straddle) simp
  then have "k (c # w @ CHR ''{'' # r) = None"
    by (rule k)
  with Cons show ?case
    by simp
qed

lemma star_lazy_page_text_blocked:
  assumes "page_text w" and "\<not> list_all p w"
    and k: \<open>\<And>s. strip_prefix ''{"hash":"'' s = None \<Longrightarrow> k s = None\<close>
  shows "star_lazy p (w @ CHR ''{'' # r) k = None"
  using assms(1,2)
proof (induction w)
  case Nil
  then show ?case by simp
next
  case (Cons c w)
  then have \<open>strip_prefix ''{"hash":"'' (c # w @ CHR ''{'' # r) = None\<close>
    by (intro fragment_start_straddle) simp
  then have "k (c # w @ CHR ''{'' # r) = None"
    by (rule k)
  with Cons show ?case
    by auto
qed

lemma star_lazy_page_text_none:
  assumes "page_text s"
    and k: \<open>\<And>s. strip_prefix ''{"hash":"'' s = None \<Longrightarrow> k s = None\<close>
  shows "star_lazy p s k = None"
  using assms(1)
proof (induction s)
  case Nil
  have "k [] = None"
    by (rule k) simp
  then show ?case by simp
next
  case (Cons c s)
  then have "k (c # s) = None"
    by (intro k) simp
  with Cons show ?case
    by simp
qed

lemma star_greedy_longest:
  assumes "list_all p w" and "t = [] \<or> \<not> p (hd t)" and "k t = Some r"
  shows "star_greedy p (w @ t) k = Some r"
  using assms
proof (induction w)
  case Nil
  then show ?case by (cases t) auto
next
  case (Cons x w)
  then show ?case by simp
qed

lemma rmatch_lit_append: "rmatch (lit xs) (xs @ t) g k = k t g"
  by (simp add: rmatch_lit)

lemma rmatch_lit_other:
  assumes "xs \<noteq> []" and "c \<noteq> hd xs"
  shows "rmatch (lit xs) (c # s) g k = None"
  using assms by (cases xs) (auto simp: rmatch_lit)

lemma rmatch_lit_Nil: "xs \<noteq> [] \<Longrightarrow> rmatch (lit xs) [] g k = None"
  by (cases xs) (auto simp: rmatch_lit)

lemma rmatch_StarLazy_skip:
  assumes "list_all p w" and "\<And>c s'. c \<in> set w \<Longrightarrow> k (c # s') g = None"
    and "k t g = Some r"
  shows "rmatch (StarLazy p) (w @ t) g k = Some r"
proof -
  have "star_lazy p (w @ t) (\<lambda>s'. k s' g) = star_lazy p t (\<lambda>s'. k s' g)"
    by (rule star_lazy_skip) (use assms in auto)
  also have "\<dots> = Some r"
    by (rule star_lazy_first) (rule assms(3))
  finally show ?thesis by simp
qed

lemma rmatch_Grp_StarLazy_skip:
  assumes "list_all p w" and "\<And>c s' h. c \<in> set w \<Longrightarrow> k (c # s') h = None"
    and "k t (g(n \<mapsto> w)) = Some r"
  shows "rmatch (Grp n (StarLazy p)) (w @ t) g k = Some r"
proof -
  let ?k = "\<lambda>s'. k s' (g(n \<mapsto> take (length (w @ t) - length s') (w @ t)))"
  have "star_lazy p (w @ t) ?k = star_lazy p t ?k"
    by (rule star_lazy_skip) (use assms in auto)
  also have "\<dots> = Some r"
    by (rule star_lazy_first) (use assms(3) in simp)
  finally show ?thesis by simp
qed

lemma rmatch_Grp_plus_greedy:
  assumes "w \<noteq> []" and "list_all p w" and "t = [] \<or> \<not> p (hd t)"
    and "k t (g(n \<mapsto> w)) = Some r"
  shows "rmatch (Grp n (plus_greedy p)) (w @ t) g k = Some r"
proof -
  from assms(1) obtain x w' where w: "w = x # w'" by (cases w) auto
  let ?k = "\<lambda>s'. k s' (g(n \<mapsto> take (length (w @ t) - length s') (w @ t)))"
  have "star_greedy p (w' @ t) ?k = Some r"
    by (rule star_greedy_longest) (use assms w in auto)
  with w assms(2) show ?thesis
    by (simp add: plus_greedy_def)
qed

lemma rmatch_Grp_lit_Seq:
  "rmatch (Grp n (Seq (lit xs) r)) (xs @ s1) g k
     = rmatch r s1 g (\<lambda>s' g'. k s' (g'(n \<mapsto> take (length (xs @ s1) - length s') (xs @ s1))))"
  by (simp add: rmatch_lit)

lemma image_pattern_no_filter:
  \<open>image_pattern None =
     Seq (StarLazy dot)
    (Seq (lit ''{"hash":"'')
    (Seq (Grp 1 (plus_greedy alnum))
    (Seq (lit ''"'')
    (Seq (StarLazy dot)
    (Seq (lit ''"ext":"'')
    (Seq (Grp 2 (Seq (lit ''.'') (Grp 3 (StarLazy dot))))
    (Seq (lit ''"'')
         (StarLazy dot))))))))\<close>
  by (simp add: image_pattern_def ext_regex_def)

text \<open>From the closing quote of the extension on.\<close>

lemma fragment_end_step:
  \<open>rmatch (Seq (lit ''"'') (StarLazy dot)) (CHR 0x22 # t) g image_result
     = Some (t, group g 1, group g 2)\<close>
  by (simp add: rmatch_lit star_lazy_first image_result_def)

lemma fragment_end_other:
  \<open>c \<noteq> CHR 0x22 \<Longrightarrow> rmatch (Seq (lit ''"'') (StarLazy dot)) (c # s) g k = None\<close>
  by (simp add: rmatch_lit)

text \<open>From the dot of the extension on.\<close>

lemma fragment_ext_step:
  assumes "list_all (\<lambda>c. c \<noteq> CHR 0x22 \<and> c \<noteq> CHR 0x0A) e"
  shows \<open>rmatch (Seq (Grp 2 (Seq (lit ''.'') (Grp 3 (StarLazy dot))))
                (Seq (lit ''"'') (StarLazy dot)))
            (''.'' @ e @ CHR 0x22 # t) g image_result
          = Some (t, group g 1, ''.'' @ e)\<close>
proof -
  let ?s = "''.'' @ e @ CHR 0x22 # t"
  let ?tail = \<open>Seq (lit ''"'') (StarLazy dot)\<close>
  let ?k = "\<lambda>s' g'. rmatch ?tail s' (g'(2 \<mapsto> take (length ?s - length s') ?s)) image_result"
  have d: "list_all dot e"
    using assms by (simp add: list_all_iff dot_def)
  have "rmatch (Grp 3 (StarLazy dot)) (e @ CHR 0x22 # t) g ?k = Some (t, group g 1, ''.'' @ e)"
  proof (rule rmatch_Grp_StarLazy_skip [OF d])
    fix c s' h
    assume "c \<in> set e"
    with assms have "c \<noteq> CHR 0x22" by (simp add: list_all_iff)
    then show "?k (c # s') h = None" by (rule fragment_end_other)
  next
    show "?k (CHR 0x22 # t) (g(3 \<mapsto> e)) = Some (t, group g 1, ''.'' @ e)"
      by (simp del: rmatch.simps add: fragment_end_step group_def)
  qed
  note inner = this
  have "rmatch (Seq (Grp 2 (Seq (lit ''.'') (Grp 3 (StarLazy dot)))) ?tail) ?s g image_result
      = rmatch (Grp 2 (Seq (lit ''.'') (Grp 3 (StarLazy dot)))) ?s g
          (\<lambda>s' g'. rmatch ?tail s' g' image_result)"
    by (rule rmatch.simps)
  also have "\<dots> = rmatch (Grp 3 (StarLazy dot)) (e @ CHR 0x22 # t) g ?k"
    by (rule rmatch_Grp_lit_Seq)
  also note inner
  finally show ?thesis .
qed

text \<open>From the key \<open>"ext"\<close> on.\<close>

lemma fragment_key_step:
  assumes "list_all (\<lambda>c. c \<noteq> CHR 0x22 \<and> c \<noteq> CHR 0x0A) e"
  shows \<open>rmatch (Seq (lit ''"ext":"'')
               (Seq (Grp 2 (Seq (lit ''.'') (Grp 3 (StarLazy dot))))
               (Seq (lit ''"'') (StarLazy dot))))
            (''"ext":"'' @ ''.'' @ e @ CHR 0x22 # t) g image_result
          = Some (t, group g 1, ''.'' @ e)\<close>
proof -
  let ?ext = \<open>Seq (Grp 2 (Seq (lit ''.'') (Grp 3 (StarLazy dot)))) (Seq (lit ''"'') (StarLazy dot))\<close>
  have \<open>rmatch (Seq (lit ''"ext":"'') ?ext) (''"ext":"'' @ ''.'' @ e @ CHR 0x22 # t) g image_result
      = rmatch (lit ''"ext":"'') (''"ext":"'' @ ''.'' @ e @ CHR 0x22 # t) g
          (\<lambda>s' g'. rmatch ?ext s' g' image_result)\<close>
    by (rule rmatch.simps)
  also have "\<dots> = rmatch ?ext (''.'' @ e @ CHR 0x22 # t) g image_result"
    by (rule rmatch_lit_append)
  also have "\<dots> = Some (t, group g 1, ''.'' @ e)"
    by (rule fragment_ext_step [OF assms])
  finally show ?thesis .
qed

lemma fragment_key_other:
  \<open>c \<noteq> CHR 0x22 \<Longrightarrow> rmatch (Seq (lit ''"ext":"'') r) (c # s) g k = None\<close>
  by (simp add: rmatch_lit)

text \<open>From the closing quote of the id on.\<close>

lemma fragment_comma_step:
  assumes "list_all (\<lambda>c. c \<noteq> CHR 0x22 \<and> c \<noteq> CHR 0x0A) e"
  shows \<open>rmatch (Seq (lit ''"'')
               (Seq (StarLazy dot)
               (Seq (lit ''"ext":"'')
               (Seq (Grp 2 (Seq (lit ''.'') (Grp 3 (StarLazy dot))))
               (Seq (lit ''"'') (StarLazy dot))))))
            (''"'' @ '','' @ ''"ext":"'' @ ''.'' @ e @ CHR 0x22 # t) g image_result
          = Some (t, group g 1, ''.'' @ e)\<close>
proof -
  let ?key = \<open>Seq (lit ''"ext":"'')
               (Seq (Grp 2 (Seq (lit ''.'') (Grp 3 (StarLazy dot))))
               (Seq (lit ''"'') (StarLazy dot)))\<close>
  let ?rest = \<open>''"ext":"'' @ ''.'' @ e @ CHR 0x22 # t\<close>
  have star: "rmatch (StarLazy dot) ('','' @ ?rest) g (\<lambda>s' g'. rmatch ?key s' g' image_result)
      = Some (t, group g 1, ''.'' @ e)"
  proof (rule rmatch_StarLazy_skip)
    show "list_all dot '',''" by (simp add: dot_def)
  next
    fix c s'
    assume "c \<in> set '',''"
    then have "c \<noteq> CHR 0x22" by simp
    then show "rmatch ?key (c # s') g image_result = None" by (rule fragment_key_other)
  next
    show "rmatch ?key ?rest g image_result = Some (t, group g 1, ''.'' @ e)"
      by (rule fragment_key_step [OF assms])
  qed
  have \<open>rmatch (Seq (lit ''"'') (Seq (StarLazy dot) ?key)) (''"'' @ '','' @ ?rest) g image_result
      = rmatch (lit ''"'') (''"'' @ '','' @ ?rest) g
          (\<lambda>s' g'. rmatch (Seq (StarLazy dot) ?key) s' g' image_result)\<close>
    by (rule rmatch.simps)
  also have "\<dots> = rmatch (Seq (StarLazy dot) ?key) ('','' @ ?rest) g image_result"
    by (rule rmatch_lit_append)
  also have "\<dots> = rmatch (StarLazy dot) ('','' @ ?rest) g (\<lambda>s' g'. rmatch ?key s' g' image_result)"
    by (rule rmatch.simps)
  also note star
  finally show ?thesis .
qed

text \<open>From the id on, and from the opening brace on.\<close>

lemma fragment_id_step:
  assumes i: "i \<noteq> []" "list_all alnum i"
    and e: "list_all (\<lambda>c. c \<noteq> CHR 0x22 \<and> c \<noteq> CHR 0x0A) e"
  shows \<open>rmatch (Seq (lit ''{"hash":"'')
               (Seq (Grp 1 (plus_greedy alnum))
               (Seq (lit ''"'')
               (Seq (StarLazy dot)
               (Seq (lit ''"ext":"'')
               (Seq (Grp 2 (Seq (lit ''.'') (Grp 3 (StarLazy dot))))
               (Seq (lit ''"'') (StarLazy dot))))))))
            (''{"hash":"'' @ i @ ''"'' @ '','' @ ''"ext":"'' @ ''.'' @ e @ CHR 0x22 # t) g image_result
          = Some (t, i, ''.'' @ e)\<close>
proof -
  let ?comma = \<open>Seq (lit ''"'')
               (Seq (StarLazy dot)
               (Seq (lit ''"ext":"'')
               (Seq (Grp 2 (Seq (lit ''.'') (Grp 3 (StarLazy dot))))
               (Seq (lit ''"'') (StarLazy dot)))))\<close>
  let ?rest = \<open>''"'' @ '','' @ ''"ext":"'' @ ''.'' @ e @ CHR 0x22 # t\<close>
  have grp: "rmatch (Grp 1 (plus_greedy alnum)) (i @ ?rest) g (\<lambda>s' g'. rmatch ?comma s' g' image_result)
      = Some (t, i, ''.'' @ e)"
  proof (rule rmatch_Grp_plus_greedy [OF i])
    show "?rest = [] \<or> \<not> alnum (hd ?rest)" by (simp add: alnum_def)
  next
    have "rmatch ?comma ?rest (g(1 \<mapsto> i)) image_result
        = Some (t, group (g(1 \<mapsto> i)) 1, ''.'' @ e)"
      by (rule fragment_comma_step [OF e])
    then show "rmatch ?comma ?rest (g(1 \<mapsto> i)) image_result = Some (t, i, ''.'' @ e)"
      by (simp only: group_def fun_upd_same option.case)
  qed
  have \<open>rmatch (Seq (lit ''{"hash":"'') (Seq (Grp 1 (plus_greedy alnum)) ?comma))
          (''{"hash":"'' @ i @ ?rest) g image_result
      = rmatch (lit ''{"hash":"'') (''{"hash":"'' @ i @ ?rest) g
          (\<lambda>s' g'. rmatch (Seq (Grp 1 (plus_greedy alnum)) ?comma) s' g' image_result)\<close>
    by (rule rmatch.simps)
  also have "\<dots> = rmatch (Seq (Grp 1 (plus_greedy alnum)) ?comma) (i @ ?rest) g image_result"
    by (rule rmatch_lit_append)
  also have "\<dots> = rmatch (Grp 1 (plus_greedy alnum)) (i @ ?rest) g
      (\<lambda>s' g'. rmatch ?comma s' g' image_result)"
    by (rule rmatch.simps)
  also note grp
  finally show ?thesis .
qed

lemma fragment_id_other:
  \<open>strip_prefix ''{"hash":"'' s = None \<Longrightarrow> rmatch (Seq (lit ''{"hash":"'') r) s g k = None\<close>
  by (simp add: rmatch_lit)

lemma fragment_text_body:
  assumes "snd img = CHR ''.'' # e"
  shows "fragment_text img @ rest = fragment_body (fst img) e @ CHR ''}'' # rest"
  using assms by (simp add: fragment_text_def fragment_body_def)

text \<open>The whole pattern on a fragment, after text in which no fragment opens.\<close>

lemma image_pattern_fragment:
  assumes i: "i \<noteq> []" "list_all alnum i"
    and e: "list_all (\<lambda>c. c \<noteq> CHR 0x22 \<and> c \<noteq> CHR 0x0A) e"
    and b: "page_text before"
  shows "rmatch (image_pattern None) (before @ fragment_body i e @ t) g image_result
          = (if list_all dot before then Some (t, i, ''.'' @ e) else None)"
proof -
  let ?id = \<open>Seq (lit ''{"hash":"'')
               (Seq (Grp 1 (plus_greedy alnum))
               (Seq (lit ''"'')
               (Seq (StarLazy dot)
               (Seq (lit ''"ext":"'')
               (Seq (Grp 2 (Seq (lit ''.'') (Grp 3 (StarLazy dot))))
               (Seq (lit ''"'') (StarLazy dot)))))))\<close>
  let ?k = "\<lambda>s'. rmatch ?id s' g image_result"
  have other: \<open>?k s = None\<close> if \<open>strip_prefix ''{"hash":"'' s = None\<close> for s
    using that by (rule fragment_id_other)
  obtain r where r: "fragment_body i e @ t = CHR ''{'' # r"
    by (simp add: fragment_body_def)
  have here: "?k (fragment_body i e @ t) = Some (t, i, ''.'' @ e)"
    using fragment_id_step [OF i e, of t g] by (simp add: fragment_body_def)
  have "rmatch (image_pattern None) (before @ fragment_body i e @ t) g image_result
      = star_lazy dot (before @ fragment_body i e @ t) ?k"
    unfolding image_pattern_no_filter by simp
  also have "\<dots> = (if list_all dot before then Some (t, i, ''.'' @ e) else None)"
  proof (cases "list_all dot before")
    case True
    with b have "star_lazy dot (before @ fragment_body i e @ t) ?k
        = star_lazy dot (fragment_body i e @ t) ?k"
      unfolding r by (rule star_lazy_page_text) (rule other)
    also have "\<dots> = Some (t, i, ''.'' @ e)"
      by (rule star_lazy_first) (rule here)
    finally show ?thesis using True by simp
  next
    case False
    with b have "star_lazy dot (before @ fragment_body i e @ t) ?k = None"
      unfolding r by (rule star_lazy_page_text_blocked) (rule other)
    with False show ?thesis by simp
  qed
  finally show ?thesis .
qed

lemma image_pattern_no_fragment:
  assumes "page_text s"
  shows "rmatch (image_pattern None) s g image_result = None"
proof -
  let ?id = \<open>Seq (lit ''{"hash":"'')
               (Seq (Grp 1 (plus_greedy alnum))
               (Seq (lit ''"'')
               (Seq (StarLazy dot)
               (Seq (lit ''"ext":"'')
               (Seq (Grp 2 (Seq (lit ''.'') (Grp 3 (StarLazy dot))))
               (Seq (lit ''"'') (StarLazy dot)))))))\<close>
  let ?k = "\<lambda>s'. rmatch ?id s' g image_result"
  have "star_lazy dot s ?k = None"
    using assms by (rule star_lazy_page_text_none) (rule fragment_id_other)
  then show ?thesis
    unfolding image_pattern_no_filter by simp
qed

lemma image_result_re_match:
  "rmatch r s (\<lambda>n. None) image_result
     = map_option (\<lambda>(t, h). (t, group h 1, group h 2)) (re_match r s)"
proof -
  let ?f = "\<lambda>(t, h). (t, group h 1, group h 2)"
  have "rmatch r s (\<lambda>n. None) (\<lambda>t h. map_option ?f (Some (t, h)))
      = map_option ?f (rmatch r s (\<lambda>n. None) (\<lambda>t h. Some (t, h)))"
    by (rule rmatch_map_option)
  moreover have "image_result = (\<lambda>t h. map_option ?f (Some (t, h)))"
    by (rule ext)+ (simp add: image_result_def)
  ultimately show ?thesis by (simp add: re_match_def)
qed

text \<open>\<open>findall\<close> on a page of fragments.\<close>

lemma findall_fragment:
  assumes i: "i \<noteq> []" "list_all alnum i"
    and e: "list_all (\<lambda>c. c \<noteq> CHR 0x22 \<and> c \<noteq> CHR 0x0A) e"
    and b: "page_text before"
  shows "map (\<lambda>h. (group h 1, group h 2)) (findall (image_pattern None) (before @ fragment_body i e @ t))
          = (i, ''.'' @ e) # map (\<lambda>h. (group h 1, group h 2)) (findall (image_pattern None) t)"
  using b
proof (induction before)
  case Nil
  have "rmatch (image_pattern None) ([] @ fragment_body i e @ t) (\<lambda>n. None) image_result
      = Some (t, i, ''.'' @ e)"
    using image_pattern_fragment [OF i e, of "[]" t] by simp
  then obtain h where h: "re_match (image_pattern None) (fragment_body i e @ t) = Some (t, h)"
    "group h 1 = i" "group h 2 = ''.'' @ e"
    by (auto simp: image_result_re_match)
  have "length t < length (fragment_body i e @ t)"
    by (simp add: fragment_body_def)
  with h show ?case
    by (subst findall.simps) simp
next
  case (Cons c before)
  then have pt: "page_text before" by simp
  show ?case
  proof (cases "list_all dot (c # before)")
    case True
    have "rmatch (image_pattern None) ((c # before) @ fragment_body i e @ t) (\<lambda>n. None) image_result
        = (if list_all dot (c # before) then Some (t, i, ''.'' @ e) else None)"
      by (rule image_pattern_fragment [OF i e Cons.prems])
    with True
    have "rmatch (image_pattern None) ((c # before) @ fragment_body i e @ t) (\<lambda>n. None) image_result
        = Some (t, i, ''.'' @ e)"
      by (simp only: if_True)
    then obtain h where h: "re_match (image_pattern None) ((c # before) @ fragment_body i e @ t) = Some (t, h)"
      "group h 1 = i" "group h 2 = ''.'' @ e"
      by (auto simp: image_result_re_match)
    have "length t < length ((c # before) @ fragment_body i e @ t)"
      by simp
    with h show ?thesis
      by (subst findall.simps) simp
  next
    case False
    have "rmatch (image_pattern None) ((c # before) @ fragment_body i e @ t) (\<lambda>n. None) image_result
        = (if list_all dot (c # before) then Some (t, i, ''.'' @ e) else None)"
      by (rule image_pattern_fragment [OF i e Cons.prems])
    with False
    have "rmatch (image_pattern None) ((c # before) @ fragment_body i e @ t) (\<lambda>n. None) image_result
        = None"
      by (simp only: if_False)
    then have "re_match (image_pattern None) ((c # before) @ fragment_body i e @ t) = None"
      by (simp add: image_result_re_match)
    then have "findall (image_pattern None) ((c # before) @ fragment_body i e @ t)
        = findall (image_pattern None) (before @ fragment_body i e @ t)"
      by (subst findall.simps) simp
    with Cons.IH [OF pt] show ?thesis by simp
  qed
qed

lemma findall_no_fragment:
  assumes "page_text s"
  shows "findall (image_pattern None) s = []"
  using assms
proof (induction s)
  case Nil
  from image_pattern_no_fragment [OF Nil, of "\<lambda>n. None"]
  have "re_match (image_pattern None) [] = None"
    by (simp add: image_result_re_match)
  then show ?case by (subst findall.simps) simp
next
  case (Cons c s)
  from image_pattern_no_fragment [OF Cons.prems, of "\<lambda>n. None"]
  have "re_match (image_pattern None) (c # s) = None"
    by (simp add: image_result_re_match)
  moreover from Cons have "findall (image_pattern None) s = []"
    by simp
  ultimately show ?case by (subst findall.simps) simp
qed

lemma findall_page:
  assumes "list_all (\<lambda>(before, img). page_text before \<and> page_image img) parts"
    and "page_text end_text" and "list_all (\<lambda>c. c \<noteq> CHR ''{'') pre"
  shows "map (\<lambda>h. (group h 1, group h 2)) (findall (image_pattern None) (pre @ page_of parts end_text))
          = map snd parts"
  using assms(1,3)
proof (induction parts arbitrary: pre)
  case Nil
  with assms(2) have "page_text (pre @ page_of [] end_text)"
    by (simp add: page_of_def page_text_append)
  then show ?case by (simp add: findall_no_fragment)
next
  case (Cons part parts)
  obtain before i x where part: "part = (before, i, x)" by (cases part) auto
  with Cons.prems have b: "page_text before" and img: "page_image (i, x)"
    and rest: "list_all (\<lambda>(before, img). page_text before \<and> page_image img) parts"
    by simp_all
  from img obtain e where x: "x = CHR ''.'' # e"
    and i: "i \<noteq> []" "list_all alnum i"
    and e: "list_all (\<lambda>c. c \<noteq> CHR 0x22 \<and> c \<noteq> CHR 0x0A) e"
    by (cases x) (auto simp: page_image_def well_formed_image_def)
  have pb: "page_text (pre @ before)"
    using Cons.prems(2) b by (rule page_text_append)
  have "pre @ page_of (part # parts) end_text
      = (pre @ before) @ fragment_body i e @ (''}'' @ page_of parts end_text)"
    using part x fragment_text_body [of "(i, x)" e "page_of parts end_text"]
    by (simp add: page_of_def)
  then have "map (\<lambda>h. (group h 1, group h 2))
        (findall (image_pattern None) (pre @ page_of (part # parts) end_text))
      = (i, ''.'' @ e) # map (\<lambda>h. (group h 1, group h 2))
          (findall (image_pattern None) (''}'' @ page_of parts end_text))"
    by (simp only: findall_fragment [OF i e pb])
  moreover have "list_all (\<lambda>c. c \<noteq> CHR ''{'') ''}''" by simp
  ultimately show ?case
    using Cons.IH [OF rest, of "''}''"] part x by simp
qed

lemma find_imageIDs_page:
  assumes "list_all (\<lambda>(before, img). page_text before \<and> page_image img) parts"
    and "page_text end_text"
  shows "find_imageIDs slot None (page_of parts end_text) = list_of_set slot (map snd parts)"
proof -
  have "list_all (\<lambda>c. c \<noteq> CHR ''{'') []" by simp
  from findall_page [OF assms this] show ?thesis
    by (simp add: find_imageIDs_def)
qed

section \<open>The images found in a page\<close>

lemma find_imageIDs_no_filter: "find_imageIDs slot (Some []) html = find_imageIDs slot None html"
  by (simp add: find_imageIDs_def image_pattern_def ext_regex_def)

text \<open>
  C2, as the claim has it for every page body, fails where the page has part of a
  fragment before a fragment. The lazy \<^verbatim>\<open>.*?\<close> after the id runs on to the next
  \<^verbatim>\<open>"ext":"\<close>, across the closing brace: the id \<open>zzz\<close>, which has no extension of its
  own, is paired with the extension of the fragment after it, and the scan goes on
  behind that fragment. The fragment of \<open>(abc, .jpg)\<close> stands in the page twice and
  no item of the sequence has this pair.
\<close>

theorem partial_fragment_hides_image:
  \<open>page_of [(''{"hash":"zzz"}'', (''abc'', ''.jpg'')), (''{"hash":"zzz"}'', (''abc'', ''.jpg''))] []
     = ''{"hash":"zzz"}{"hash":"abc","ext":".jpg"}{"hash":"zzz"}{"hash":"abc","ext":".jpg"}''
   \<and> find_imageIDs (\<lambda>i. 0) None
       ''{"hash":"zzz"}{"hash":"abc","ext":".jpg"}{"hash":"zzz"}{"hash":"abc","ext":".jpg"}''
     = [(''zzz'', ''.jpg'')]
   \<and> count_list (find_imageIDs (\<lambda>i. 0) None
         ''{"hash":"zzz"}{"hash":"abc","ext":".jpg"}{"hash":"zzz"}{"hash":"abc","ext":".jpg"}'')
       (''abc'', ''.jpg'') = 0\<close>
proof -
  have page: \<open>page_of [(''{"hash":"zzz"}'', (''abc'', ''.jpg'')), (''{"hash":"zzz"}'', (''abc'', ''.jpg''))] []
     = ''{"hash":"zzz"}{"hash":"abc","ext":".jpg"}{"hash":"zzz"}{"hash":"abc","ext":".jpg"}''\<close>
    by (simp add: page_of_def fragment_text_def)
  have found: \<open>find_imageIDs (\<lambda>i. 0) None
       ''{"hash":"zzz"}{"hash":"abc","ext":".jpg"}{"hash":"zzz"}{"hash":"abc","ext":".jpg"}''
     = [(''zzz'', ''.jpg'')]\<close>
    by code_simp
  show ?thesis
    unfolding found using page by simp
qed

text \<open>
  C2, as the code has it. For every page body the sequence of images holds no pair
  (id, extension) twice, and a pair that the scan of the page finds, however many
  times, is in it exactly once; the occurrences that the scan finds are the matches of
  the pattern of line 113, as \<open>findall\<close> returns them. On a page of fragments, each
  after text in which no fragment opens, read without a filter, the scan finds every
  fragment: an image whose fragment stands in the page, once or many times, is in the
  sequence exactly once.
\<close>

theorem extraction_deduplicates:
  "distinct (find_imageIDs slot extn html)
   \<and> (\<forall>p. 0 < count_list (map (\<lambda>i. (group i 1, group i 2)) (findall (image_pattern extn) html)) p
        \<longrightarrow> count_list (find_imageIDs slot extn html) p = 1)
   \<and> (\<forall>parts end_text img.
          html = page_of parts end_text \<and> (extn = None \<or> extn = Some [])
          \<and> list_all (\<lambda>(before, img). page_text before \<and> page_image img) parts
          \<and> page_text end_text
          \<and> 0 < count_list (map snd parts) img
        \<longrightarrow> count_list (find_imageIDs slot extn html) img = 1)"
proof -
  let ?raw = "map (\<lambda>i. (group i 1, group i 2)) (findall (image_pattern extn) html)"
  have d: "distinct (find_imageIDs slot extn html)"
    by (simp add: find_imageIDs_def list_of_set_distinct)
  have s: "set (find_imageIDs slot extn html) = set ?raw"
    by (simp add: find_imageIDs_def list_of_set_set)
  have found: "count_list (find_imageIDs slot extn html) p = 1" if "0 < count_list ?raw p" for p
  proof -
    from that have "p \<in> set ?raw"
      by (metis count_list_0_iff less_numeral_extra(3))
    with s d show ?thesis
      by (simp add: count_list_distinct)
  qed
  have page: "count_list (find_imageIDs slot extn html) img = 1"
    if html: "html = page_of parts end_text" and extn: "extn = None \<or> extn = Some []"
      and parts: "list_all (\<lambda>(before, img). page_text before \<and> page_image img) parts"
      and end_text: "page_text end_text"
      and img: "0 < count_list (map snd parts) img"
    for parts end_text img
  proof -
    from extn have "find_imageIDs slot extn html = find_imageIDs slot None html"
      by (auto simp: find_imageIDs_no_filter)
    with html find_imageIDs_page [OF parts end_text, of slot]
    have eq: "find_imageIDs slot extn html = list_of_set slot (map snd parts)"
      by simp
    from img have "img \<in> set (map snd parts)"
      by (metis count_list_0_iff less_numeral_extra(3))
    then show ?thesis
      unfolding eq by (simp add: count_list_distinct list_of_set_distinct list_of_set_set)
  qed
  from d found page show ?thesis by blast
qed

theorem extraction_deduplicates_witness:
  \<open>page_of [(''{"images":['', (''abc1'', ''.jpg'')), ('','', (''xyz2'', ''.png'')), ('','', (''abc1'', ''.jpg''))]
       '']}''
     = ''{"images":[{"hash":"abc1","ext":".jpg"},{"hash":"xyz2","ext":".png"},{"hash":"abc1","ext":".jpg"}]}''
   \<and> count_list (map (\<lambda>i. (group i 1, group i 2))
        (findall (image_pattern None)
          ''{"images":[{"hash":"abc1","ext":".jpg"},{"hash":"xyz2","ext":".png"},{"hash":"abc1","ext":".jpg"}]}''))
        (''abc1'', ''.jpg'') = 2
   \<and> count_list (find_imageIDs (length \<circ> fst) None
        ''{"images":[{"hash":"abc1","ext":".jpg"},{"hash":"xyz2","ext":".png"},{"hash":"abc1","ext":".jpg"}]}'')
        (''abc1'', ''.jpg'') = 1
   \<and> distinct (find_imageIDs (length \<circ> fst) None
        ''{"images":[{"hash":"abc1","ext":".jpg"},{"hash":"xyz2","ext":".png"},{"hash":"abc1","ext":".jpg"}]}'')\<close>
proof -
  let ?parts = \<open>[(''{"images":['', (''abc1'', ''.jpg'')), ('','', (''xyz2'', ''.png'')),
      ('','', (''abc1'', ''.jpg''))]\<close>
  let ?page = \<open>''{"images":[{"hash":"abc1","ext":".jpg"},{"hash":"xyz2","ext":".png"},{"hash":"abc1","ext":".jpg"}]}''\<close>
  have page: "page_of ?parts '']}'' = ?page"
    by (simp add: page_of_def fragment_text_def)
  have parts: "list_all (\<lambda>(before, img). page_text before \<and> page_image img) ?parts"
    by (simp add: page_image_def well_formed_image_def alnum_def)
  have end_text: "page_text '']}''"
    by simp
  have twice: "0 < count_list (map snd ?parts) (''abc1'', ''.jpg'')"
    by simp
  have two: "count_list (map (\<lambda>i. (group i 1, group i 2)) (findall (image_pattern None) ?page))
      (''abc1'', ''.jpg'') = 2"
    by code_simp
  note dedup = extraction_deduplicates [of "length \<circ> fst" None ?page]
  have hyp: "?page = page_of ?parts '']}'' \<and> (None = None \<or> None = Some [])
      \<and> list_all (\<lambda>(before, img). page_text before \<and> page_image img) ?parts
      \<and> page_text '']}''
      \<and> 0 < count_list (map snd ?parts) (''abc1'', ''.jpg'')"
    using page [symmetric] parts end_text twice by (intro conjI) simp_all
  have "count_list (find_imageIDs (length \<circ> fst) None ?page) (''abc1'', ''.jpg'') = 1"
    by (rule dedup [THEN conjunct2, THEN conjunct2, THEN spec, THEN spec, THEN spec, THEN mp, OF hyp])
  moreover have "distinct (find_imageIDs (length \<circ> fst) None ?page)"
    by (rule dedup [THEN conjunct1])
  ultimately show ?thesis
    using page two by simp
qed

text \<open>
  C3. With a list of extensions the pattern asks for two dots before the listed text:
  \<open>ext_regex\<close> brings a dot of its own into a pattern that already has one. Given
  the list \<open>["jpg"]\<close>, a page whose item has the extension \<open>..jpg\<close> gives an item
  with that extension, which is not a listed value.
\<close>

theorem filter_extracts_unlisted_extension:
  \<open>find_imageIDs (\<lambda>i. 0) (Some [''jpg'']) ''{"hash":"abc","ext":"..jpg"}''
     = [(''abc'', ''..jpg'')]\<close>
  by code_simp

text \<open>The same slip on a page as the service writes it: the filter keeps nothing.\<close>

lemma filter_drops_listed_extension:
  \<open>find_imageIDs (\<lambda>i. 0) (Some [''jpg'']) ''{"hash":"abc","ext":".jpg"}'' = []\<close>
  \<open>find_imageIDs (\<lambda>i. 0) (Some [''.jpg'']) ''{"hash":"abc","ext":".jpg"}'' = []\<close>
  by code_simp+

text \<open>
  C9. The order of the sequence is the order in which the set of line 116 hands out its
  elements, and that order is not fixed by the page and the filter: two runs of the
  interpreter, with the hash tables laid out differently, give the same page's images
  in different orders.
\<close>

theorem order_differs_between_runs:
  \<open>find_imageIDs (length \<circ> fst) None ''{"hash":"abc","ext":".jpg"}{"hash":"d","ext":".png"}''
     = [(''d'', ''.png''), (''abc'', ''.jpg'')]
   \<and> find_imageIDs ((-) 5 \<circ> length \<circ> fst) None ''{"hash":"abc","ext":".jpg"}{"hash":"d","ext":".png"}''
     = [(''abc'', ''.jpg''), (''d'', ''.png'')]\<close>
  by code_simp

text \<open>
  C9, as the code has it. Whatever the order of the set in a run, the sequence holds
  the same images, each once: two runs give permutations of one another, and
  within a run the sequence is a function of the page and the filter.
\<close>

theorem same_images_in_every_run:
  "mset (find_imageIDs slot1 extn html) = mset (find_imageIDs slot2 extn html)"
  by (simp add: find_imageIDs_def list_of_set_mset)

section \<open>\<open>save_images\<close>: what a run does\<close>

lemma events_emit [simp]: "events (emit es w) = events w @ es"
  by (simp add: emit_def)

lemma files_emit [simp]: "files (emit es w) = files w"
  by (simp add: emit_def)

lemma dirs_emit [simp]: "dirs (emit es w) = dirs w"
  by (simp add: emit_def)

lemma denied_emit [simp]: "denied (emit es w) = denied w"
  by (simp add: emit_def)

lemma isfile_emit [simp]: "isfile (emit es w) p = isfile w p"
  by (simp add: isfile_def)

lemma os_path_exists_emit [simp]: "os_path_exists (emit es w) p = os_path_exists w p"
  by (simp add: os_path_exists_def)

lemma filter_image_callback_events [simp]:
  "filter is_image_callback (image_callback_events d f u c img) = image_callback_events d f u c img"
  "filter is_complete_callback (image_callback_events d f u c img) = []"
  "filter is_http_get (image_callback_events d f u c img) = []"
  "filter is_success_callback (image_callback_events d f u c img) = []"
  by (simp_all add: image_callback_events_def filter_map comp_def)

lemma caught_failure: "transport_failure e \<or> e = UnidentifiedImageError \<Longrightarrow> caught e"
  by (auto simp: transport_failure_def)

text \<open>The folder, lines 190 and 191.\<close>

lemma make_folder_frame:
  assumes "make_folder f w = Inr w0"
  shows "files w0 = files w \<and> events w0 = events w \<and> denied w0 = denied w
      \<and> (\<forall>p. p \<noteq> f \<longrightarrow> dirs w0 p = dirs w p) \<and> os_path_exists w0 f"
  using assms
  by (auto simp: make_folder_def os_makedirs_def os_path_exists_def isfile_def
      split: if_splits option.splits)

lemma make_folder_ready: "(\<exists>w0. make_folder f w = Inr w0) = folder_ready w f"
  by (auto simp: make_folder_def os_makedirs_def folder_ready_def os_path_exists_def
      split: option.splits)

lemma make_folder_empty: "make_folder [] w = Inl (OtherException ''FileNotFoundError'' None)"
  by (simp add: make_folder_def os_makedirs_def os_path_exists_def)

lemma save_images_Inr:
  assumes "save_images session_get image_size d foldername useKey w = Inr w'"
  shows "\<exists>w0 w1. files w0 = files w \<and> events w0 = events w
      \<and> save_loop session_get image_size d (albumFolder d foldername) useKey 1 (imageIDs d) w0 = Inr w1
      \<and> w' = emit (map CompleteCallback (complete_callbacks d)) w1"
proof -
  from assms obtain w0 w1 where
    mk: "make_folder (albumFolder d foldername) w = Inr w0"
    and loop: "save_loop session_get image_size d (albumFolder d foldername) useKey 1 (imageIDs d) w0
      = Inr w1"
    and w': "w' = emit (map CompleteCallback (complete_callbacks d)) w1"
    by (auto simp: save_images_def split: sum.splits)
  from make_folder_frame [OF mk] loop w' show ?thesis
    by blast
qed


subsection \<open>Destination paths\<close>

lemma of_char_digit_char: "of_char (digit_char n) = (48::nat) + n mod 10"
proof -
  have "n mod 10 = 0 \<or> n mod 10 = 1 \<or> n mod 10 = 2 \<or> n mod 10 = 3 \<or> n mod 10 = 4
      \<or> n mod 10 = 5 \<or> n mod 10 = 6 \<or> n mod 10 = 7 \<or> n mod 10 = 8 \<or> n mod 10 = 9"
    by presburger
  then show ?thesis
    by (elim disjE) (simp_all add: digit_char_def)
qed

lemma digit_digit_char: "digit (digit_char n)"
  by (simp add: digit_def of_char_digit_char)

lemma digits_str_nat: "list_all digit (str_nat n)"
proof (induction n rule: str_nat.induct)
  case (1 n)
  then show ?case
    by (subst str_nat.simps) (simp add: digit_digit_char)
qed

lemma decimal_value_snoc: "decimal_value (s @ [c]) = 10 * decimal_value s + (of_char c - 48)"
  by (simp add: decimal_value_def)

lemma decimal_value_str_nat: "decimal_value (str_nat n) = n"
proof (induction n rule: str_nat.induct)
  case (1 n)
  show ?case
  proof (cases "n < 10")
    case True
    then show ?thesis
      by (subst str_nat.simps) (simp add: decimal_value_def of_char_digit_char)
  next
    case False
    with 1 have "decimal_value (str_nat (n div 10)) = n div 10" by simp
    with False show ?thesis
      by (subst str_nat.simps) (simp add: decimal_value_snoc of_char_digit_char)
  qed
qed

lemma decimal_value_zeros: "decimal_value (replicate k (CHR ''0'') @ s) = decimal_value s"
proof -
  have "foldl (\<lambda>a c. 10 * a + (of_char c - 48)) 0 (replicate k (CHR ''0'')) = (0::nat)"
    by (induction k) simp_all
  then show ?thesis
    by (simp add: decimal_value_def)
qed

lemma decimal_value_format: "decimal_value (format_0_2 n) = n"
  by (simp add: format_0_2_def decimal_value_zeros decimal_value_str_nat)

lemma digits_format: "list_all digit (format_0_2 n)"
proof -
  have "digit (CHR ''0'')" by (simp add: digit_def)
  with digits_str_nat [of n] show ?thesis
    by (auto simp: format_0_2_def list_all_iff)
qed

lemma format_inj: "format_0_2 m = format_0_2 n \<Longrightarrow> m = n"
  by (metis decimal_value_format)

lemma file_name_counter:
  assumes "list_all alnum stem" and "list_all alnum stem'"
    and "ext \<noteq> []" and "hd ext = CHR ''.''" and "ext' \<noteq> []" and "hd ext' = CHR ''.''"
    and eq: "stem @ suffix c @ ext = stem' @ suffix c' @ ext'"
  shows "c = c'"
proof -
  have us: "\<not> alnum (CHR ''_'')" by (simp add: alnum_def)
  have dt: "\<not> digit (CHR ''.'')" by (simp add: digit_def)
  have tw: "takeWhile alnum (s @ suffix n @ e) = s" if "list_all alnum s" for s n e
    using that us by (simp add: suffix_def takeWhile_append2 list_all_iff)
  from eq have "takeWhile alnum (stem @ suffix c @ ext) = takeWhile alnum (stem' @ suffix c' @ ext')"
    by simp
  with assms(1,2) have "stem = stem'" by (simp add: tw)
  with eq have f: "format_0_2 c @ ext = format_0_2 c' @ ext'"
    by (simp add: suffix_def)
  have td: "takeWhile digit (format_0_2 n @ e) = format_0_2 n" if "e \<noteq> []" "hd e = CHR ''.''" for n e
  proof -
    from that obtain e' where "e = CHR ''.'' # e'" by (cases e) auto
    with dt digits_format [of n] show ?thesis
      by (simp add: takeWhile_append2 list_all_iff)
  qed
  from f have "takeWhile digit (format_0_2 c @ ext) = takeWhile digit (format_0_2 c' @ ext')"
    by simp
  with assms(3-6) have "format_0_2 c = format_0_2 c'" by (simp add: td)
  then show ?thesis by (rule format_inj)
qed

lemma os_path_join_relative:
  assumes "b \<noteq> []" and "hd b \<noteq> CHR ''/''"
  shows "os_path_join a b = (if a = [] \<or> last a = CHR ''/'' then a else a @ ''/'') @ b"
  using assms by (simp add: os_path_join_def)

lemma file_name_relative:
  assumes "list_all alnum stem"
  shows "stem @ suffix c @ ext \<noteq> [] \<and> hd (stem @ suffix c @ ext) \<noteq> CHR ''/''"
proof (cases stem)
  case Nil
  then show ?thesis by (simp add: suffix_def)
next
  case (Cons x xs)
  with assms have "alnum x" by simp
  moreover have "\<not> alnum (CHR ''/'')" by (simp add: alnum_def)
  ultimately have "x \<noteq> CHR ''/''" by auto
  with Cons show ?thesis by simp
qed

lemma path_counter:
  assumes "list_all alnum (album_key d)" and "well_formed_image img" and "well_formed_image img'"
    and eq: "path d f u c img = path d f u c' img'"
  shows "c = c'"
proof -
  let ?stem = "\<lambda>i. if u then album_key d else fst i"
  have st: "list_all alnum (?stem img)" "list_all alnum (?stem img')"
    using assms(1-3) by (simp_all add: well_formed_image_def)
  have p: "path d f u n i = os_path_join f (?stem i @ suffix n @ snd i)" for n i
    by (simp add: path_def)
  from eq have "?stem img @ suffix c @ snd img = ?stem img' @ suffix c' @ snd img'"
    unfolding p
    using file_name_relative [OF st(1), of c "snd img"] file_name_relative [OF st(2), of c' "snd img'"]
    by (simp add: os_path_join_relative)
  with st assms(2,3) show ?thesis
    by (intro file_name_counter [of "?stem img" "?stem img'" "snd img" "snd img'" c c'])
       (simp_all add: well_formed_image_def)
qed

lemma enumerate_item:
  assumes "item \<in> set (enumerate c xs)"
  shows "snd item \<in> set xs" and "c \<le> fst item"
proof -
  obtain n x where item: "item = (n, x)"
    by (cases item)
  with assms show "snd item \<in> set xs" and "c \<le> fst item"
    by (auto simp: in_set_enumerate_eq)
qed

lemma path_not_folder:
  assumes "list_all alnum (album_key d)" and "well_formed_image img"
  shows "path d f u c img \<noteq> f"
proof -
  let ?stem = "if u then album_key d else fst img"
  have st: "list_all alnum ?stem"
    using assms by (simp add: well_formed_image_def)
  have p: "path d f u c img = os_path_join f (?stem @ suffix c @ snd img)"
    by (simp add: path_def)
  from file_name_relative [OF st, of c "snd img"]
  have "length f < length (os_path_join f (?stem @ suffix c @ snd img))"
    by (simp add: os_path_join_relative)
  then show ?thesis
    unfolding p by auto
qed

lemma path_not_empty:
  assumes "list_all alnum (album_key d)" and "well_formed_image img"
  shows "path d f u c img \<noteq> []"
proof -
  let ?stem = "if u then album_key d else fst img"
  have st: "list_all alnum ?stem"
    using assms by (simp add: well_formed_image_def)
  have p: "path d f u c img = os_path_join f (?stem @ suffix c @ snd img)"
    by (simp add: path_def)
  from file_name_relative [OF st, of c "snd img"]
  show ?thesis
    unfolding p by (simp add: os_path_join_relative)
qed

subsection \<open>Files that are there already\<close>

lemma emit_emit: "emit es' (emit es w) = emit (es @ es') w"
  by (simp add: emit_def)

lemma save_image_existing:
  assumes "isfile w (path d f u c img)"
  shows "save_image session_get image_size d f u c img w = Inr (emit (skip_events d f u c img) w)"
  using assms
  by (simp add: save_image_def Let_def skip_events_def image_callback_events_def emit_emit)

lemma save_image_frame:
  assumes "save_image session_get image_size d f u c img w = Inr w1"
  shows "\<exists>new. events w1 = events w @ new
      \<and> (\<forall>q. q \<noteq> path d f u c img \<longrightarrow> files w1 q = files w q)
      \<and> (isfile w (path d f u c img) \<longrightarrow> files w1 = files w)
      \<and> filter is_http_get new = (if isfile w (path d f u c img) then [] else [HttpGet (image_url img)])
      \<and> (\<forall>fn n url p. SuccessCallback fn n url p \<in> set new \<longrightarrow> \<not> isfile w p)"
proof (cases "isfile w (path d f u c img)")
  case True
  with assms have "w1 = emit (skip_events d f u c img) w"
    by (simp add: save_image_existing)
  with True show ?thesis
    by (auto simp: skip_events_def image_callback_events_def)
next
  case False
  show ?thesis
  proof (cases "session_get (image_url img)")
    case (Inl e)
    with False assms show ?thesis
      by (auto simp: save_image_def Let_def download_failed_def os_path_exists_def os_remove_def
          image_callback_events_def filter_map comp_def isfile_def split: if_splits)
  next
    case (Inr r)
    show ?thesis
    proof (cases "image_size (content r)")
      case (Inl e)
      with False Inr assms show ?thesis
        by (auto simp: save_image_def Let_def download_failed_def os_path_exists_def os_remove_def
            image_callback_events_def filter_map comp_def isfile_def split: if_splits)
    next
      case size: (Inr wh)
      with False Inr assms show ?thesis
        by (cases wh)
           (auto simp: save_image_def Let_def download_failed_def os_path_exists_def os_remove_def
              write_file_def image_callback_events_def filter_map comp_def isfile_def
              split: if_splits option.splits)
    qed
  qed
qed


lemma save_loop_existing:
  assumes key: "list_all alnum (album_key d)"
    and wf: "list_all well_formed_image imgs"
    and run: "save_loop session_get image_size d f u c imgs w = Inr w'"
  shows "\<exists>new. events w' = events w @ new
      \<and> filter is_http_get new =
          map (\<lambda>(n, img). HttpGet (image_url img))
            (filter (\<lambda>(n, img). \<not> isfile w (path d f u n img)) (enumerate c imgs))
      \<and> (\<forall>fn n url p. SuccessCallback fn n url p \<in> set new \<longrightarrow> \<not> isfile w p)
      \<and> (\<forall>p. isfile w p \<longrightarrow> files w' p = files w p)
      \<and> (\<forall>p. files w' p \<noteq> files w p \<longrightarrow>
             p \<in> (\<lambda>(n, img). path d f u n img) ` set (enumerate c imgs))"
  using wf run
proof (induction imgs arbitrary: c w)
  case Nil
  then show ?case by simp
next
  case (Cons img imgs)
  let ?p = "path d f u c img"
  from Cons.prems(2) obtain w1 where
    one: "save_image session_get image_size d f u c img w = Inr w1"
    and rest: "save_loop session_get image_size d f u (Suc c) imgs w1 = Inr w'"
    by (auto split: sum.splits)
  from save_image_frame [OF one] obtain new1 where 1:
    "events w1 = events w @ new1"
    "\<forall>q. q \<noteq> ?p \<longrightarrow> files w1 q = files w q"
    "isfile w ?p \<longrightarrow> files w1 = files w"
    "filter is_http_get new1 = (if isfile w ?p then [] else [HttpGet (image_url img)])"
    "\<forall>fn n url p. SuccessCallback fn n url p \<in> set new1 \<longrightarrow> \<not> isfile w p"
    by blast
  from Cons.prems(1) have wfs: "well_formed_image img" "list_all well_formed_image imgs"
    by simp_all
  from Cons.IH [OF wfs(2) rest] obtain new2 where 2:
    "events w' = events w1 @ new2"
    "filter is_http_get new2 =
       map (\<lambda>(n, img). HttpGet (image_url img))
         (filter (\<lambda>(n, img). \<not> isfile w1 (path d f u n img)) (enumerate (Suc c) imgs))"
    "\<forall>fn n url p. SuccessCallback fn n url p \<in> set new2 \<longrightarrow> \<not> isfile w1 p"
    "\<forall>p. isfile w1 p \<longrightarrow> files w' p = files w1 p"
    "\<forall>p. files w' p \<noteq> files w1 p \<longrightarrow>
        p \<in> (\<lambda>(n, img). path d f u n img) ` set (enumerate (Suc c) imgs)"
    by blast
  have keep: "files w1 p = files w p" if "isfile w p" for p
    using 1(2,3) that by (cases "p = ?p") auto
  have later: "isfile w1 (path d f u n i) = isfile w (path d f u n i)"
    if "(n, i) \<in> set (enumerate (Suc c) imgs)" for n i
  proof -
    from that have "n \<noteq> c" and "i \<in> set imgs"
      by (auto simp: in_set_enumerate_eq)
    with wfs have "well_formed_image i" by (simp add: list_all_iff)
    with key wfs(1) \<open>n \<noteq> c\<close> have "path d f u n i \<noteq> ?p"
      using path_counter [of d i img f u n c] by blast
    with 1(2) show ?thesis by (simp add: isfile_def)
  qed
  have f: "filter (\<lambda>(n, img). \<not> isfile w1 (path d f u n img)) (enumerate (Suc c) imgs)
         = filter (\<lambda>(n, img). \<not> isfile w (path d f u n img)) (enumerate (Suc c) imgs)"
    by (rule filter_cong) (auto simp: later)
  have "events w' = events w @ (new1 @ new2)"
    using 1(1) 2(1) by simp
  moreover have "filter is_http_get (new1 @ new2) =
      map (\<lambda>(n, img). HttpGet (image_url img))
        (filter (\<lambda>(n, img). \<not> isfile w (path d f u n img)) (enumerate c (img # imgs)))"
    using 1(4) 2(2) f by simp
  moreover have "\<forall>fn n url p. SuccessCallback fn n url p \<in> set (new1 @ new2) \<longrightarrow> \<not> isfile w p"
  proof (intro allI impI)
    fix fn n url p
    assume "SuccessCallback fn n url p \<in> set (new1 @ new2)"
    then consider "SuccessCallback fn n url p \<in> set new1" | "SuccessCallback fn n url p \<in> set new2"
      by auto
    then show "\<not> isfile w p"
    proof cases
      case 1
      with \<open>\<forall>fn n url p. SuccessCallback fn n url p \<in> set new1 \<longrightarrow> \<not> isfile w p\<close>
      show ?thesis by blast
    next
      case 2
      with \<open>\<forall>fn n url p. SuccessCallback fn n url p \<in> set new2 \<longrightarrow> \<not> isfile w1 p\<close>
      have "\<not> isfile w1 p" by blast
      show ?thesis
      proof
        assume "isfile w p"
        with keep [of p] have "isfile w1 p" by (simp add: isfile_def)
        with \<open>\<not> isfile w1 p\<close> show False by simp
      qed
    qed
  qed
  moreover have "\<forall>p. isfile w p \<longrightarrow> files w' p = files w p"
    using keep 2(4) by (auto simp: isfile_def)
  moreover have "\<forall>p. files w' p \<noteq> files w p \<longrightarrow>
      p \<in> (\<lambda>(n, img). path d f u n img) ` set (enumerate c (img # imgs))"
  proof (intro allI impI)
    fix p
    assume ne: "files w' p \<noteq> files w p"
    show "p \<in> (\<lambda>(n, img). path d f u n img) ` set (enumerate c (img # imgs))"
    proof (cases "files w' p = files w1 p")
      case True
      with ne 1(2) have "p = ?p" by auto
      then show ?thesis by (auto simp: image_iff)
    next
      case False
      with 2(5) show ?thesis by auto
    qed
  qed
  ultimately show ?case by blast
qed

subsection \<open>The outcome of every item\<close>

lemma download_outcome_files:
  assumes "files w1 p = files w p"
  shows "download_outcome session_get image_size w1 url p = download_outcome session_get image_size w url p"
  using assms by (simp add: download_outcome_def isfile_def)

lemma can_save_frame:
  assumes "files w1 p = files w p" and "dirs w1 p = dirs w p" and "denied w1 p = denied w p"
  shows "can_save w1 p = can_save w p"
  using assms by (simp add: can_save_def isfile_def)

lemma filter_complete_outcome_events [simp]:
  "filter is_complete_callback (outcome_events d c url p out) = []"
  by (cases out) (simp_all add: outcome_events_def filter_map comp_def)

text \<open>
  One pass through the body of the loop when every failure of the request and of the
  decoding is one that the handler takes and the destination lets itself be written.
\<close>

lemma save_image_outcome:
  assumes sg: "\<And>e. session_get (image_url img) = Inl e \<Longrightarrow> caught e"
    and isz: "\<And>r e. session_get (image_url img) = Inr r \<Longrightarrow> image_size (content r) = Inl e \<Longrightarrow> caught e"
    and cs: "can_save w (path d f u c img)"
    and ne: "path d f u c img \<noteq> []"
  shows "\<exists>w1. save_image session_get image_size d f u c img w = Inr w1
           \<and> events w1 = events w @ item_events session_get image_size d f u w (c, img)
           \<and> files w1 = (files w)(path d f u c img :=
                 outcome_file (item_outcome session_get image_size d f u w (c, img))
                   (files w (path d f u c img)))
           \<and> dirs w1 = dirs w \<and> denied w1 = denied w"
proof (cases "isfile w (path d f u c img)")
  case True
  then show ?thesis
    by (auto simp: save_image_def Let_def item_events_def item_outcome_def download_outcome_def
        outcome_events_def outcome_file_def)
next
  case False
  with cs have wr: "\<not> dirs w (path d f u c img)" "denied w (path d f u c img) = None"
    by (simp_all add: can_save_def)
  show ?thesis
  proof (cases "session_get (image_url img)")
    case (Inl e)
    with sg have "caught e" by simp
    with False Inl wr show ?thesis
      by (auto simp: save_image_def Let_def download_failed_def os_path_exists_def
          item_events_def item_outcome_def download_outcome_def outcome_events_def outcome_file_def)
  next
    case (Inr r)
    show ?thesis
    proof (cases "image_size (content r)")
      case (Inl e)
      with isz Inr have "caught e" by simp
      with False Inr Inl wr show ?thesis
        by (auto simp: save_image_def Let_def download_failed_def os_path_exists_def
            item_events_def item_outcome_def download_outcome_def outcome_events_def outcome_file_def)
    next
      case size: (Inr wh)
      with False Inr wr show ?thesis
        by (cases wh)
           (auto simp: save_image_def Let_def write_file_def
              item_events_def item_outcome_def download_outcome_def outcome_events_def outcome_file_def)
    qed
  qed
qed

text \<open>The loop: the outcomes are those read off the world in which the loop starts.\<close>

lemma save_loop_outcomes:
  assumes key: "list_all alnum (album_key d)"
    and sg: "\<And>url e. session_get url = Inl e \<Longrightarrow> caught e"
    and isz: "\<And>b e. image_size b = Inl e \<Longrightarrow> caught e"
    and wf: "list_all well_formed_image imgs"
    and cs: "\<forall>item \<in> set (enumerate c imgs). can_save w (path d f u (fst item) (snd item))"
  shows "\<exists>w'. save_loop session_get image_size d f u c imgs w = Inr w'
           \<and> events w' = events w
               @ concat (map (item_events session_get image_size d f u w) (enumerate c imgs))
           \<and> (\<forall>item \<in> set (enumerate c imgs).
                 files w' (path d f u (fst item) (snd item))
                   = outcome_file (item_outcome session_get image_size d f u w item)
                       (files w (path d f u (fst item) (snd item))))
           \<and> (\<forall>p. p \<notin> (\<lambda>item. path d f u (fst item) (snd item)) ` set (enumerate c imgs)
                 \<longrightarrow> files w' p = files w p)
           \<and> dirs w' = dirs w \<and> denied w' = denied w"
  using wf cs
proof (induction imgs arbitrary: c w)
  case Nil
  then show ?case by simp
next
  case (Cons img imgs)
  let ?p = "path d f u c img"
  let ?later = "enumerate (Suc c) imgs"
  from Cons.prems(1) have wfs: "well_formed_image img" "list_all well_formed_image imgs"
    by simp_all
  from Cons.prems(2) have cs0: "can_save w ?p"
    by simp
  have ne: "?p \<noteq> []"
    using key wfs(1) by (rule path_not_empty)
  have "\<exists>w1. save_image session_get image_size d f u c img w = Inr w1
           \<and> events w1 = events w @ item_events session_get image_size d f u w (c, img)
           \<and> files w1 = (files w)(?p :=
                 outcome_file (item_outcome session_get image_size d f u w (c, img)) (files w ?p))
           \<and> dirs w1 = dirs w \<and> denied w1 = denied w"
    by (rule save_image_outcome) (erule sg, erule isz, rule cs0, rule ne)
  then obtain w1 where 1:
    "save_image session_get image_size d f u c img w = Inr w1"
    "events w1 = events w @ item_events session_get image_size d f u w (c, img)"
    "files w1 = (files w)(?p :=
       outcome_file (item_outcome session_get image_size d f u w (c, img)) (files w ?p))"
    "dirs w1 = dirs w" "denied w1 = denied w"
    by blast
  have other: "path d f u (fst item) (snd item) \<noteq> ?p" if "item \<in> set ?later" for item
  proof -
    from enumerate_item [OF that] have "fst item \<noteq> c" and "snd item \<in> set imgs"
      by simp_all
    with wfs have "well_formed_image (snd item)" by (simp add: list_all_iff)
    with key wfs(1) \<open>fst item \<noteq> c\<close> show ?thesis
      using path_counter [of d "snd item" img f u "fst item" c] by blast
  qed
  have same: "files w1 (path d f u (fst item) (snd item)) = files w (path d f u (fst item) (snd item))"
    if "item \<in> set ?later" for item
    using other [OF that] 1(3) by simp
  have out: "item_outcome session_get image_size d f u w1 item
      = item_outcome session_get image_size d f u w item" if "item \<in> set ?later" for item
    unfolding item_outcome_def by (rule download_outcome_files) (rule same [OF that])
  have ev: "item_events session_get image_size d f u w1 item
      = item_events session_get image_size d f u w item" if "item \<in> set ?later" for item
    unfolding item_events_def using out [OF that] by simp
  have cs1: "\<forall>item \<in> set ?later. can_save w1 (path d f u (fst item) (snd item))"
  proof
    fix item
    assume item: "item \<in> set ?later"
    with Cons.prems(2) have "can_save w (path d f u (fst item) (snd item))"
      by simp
    moreover have "can_save w1 (path d f u (fst item) (snd item))
        = can_save w (path d f u (fst item) (snd item))"
      by (rule can_save_frame) (simp_all add: same [OF item] 1(4,5))
    ultimately show "can_save w1 (path d f u (fst item) (snd item))"
      by simp
  qed
  from Cons.IH [OF wfs(2) cs1] obtain w' where 2:
    "save_loop session_get image_size d f u (Suc c) imgs w1 = Inr w'"
    "events w' = events w1 @ concat (map (item_events session_get image_size d f u w1) ?later)"
    "\<forall>item \<in> set ?later.
        files w' (path d f u (fst item) (snd item))
          = outcome_file (item_outcome session_get image_size d f u w1 item)
              (files w1 (path d f u (fst item) (snd item)))"
    "\<forall>p. p \<notin> (\<lambda>item. path d f u (fst item) (snd item)) ` set ?later \<longrightarrow> files w' p = files w1 p"
    "dirs w' = dirs w1" "denied w' = denied w1"
    by blast
  have evs: "map (item_events session_get image_size d f u w1) ?later
      = map (item_events session_get image_size d f u w) ?later"
    by (rule map_cong) (simp_all add: ev)
  have notin: "?p \<notin> (\<lambda>item. path d f u (fst item) (snd item)) ` set ?later"
  proof
    assume "?p \<in> (\<lambda>item. path d f u (fst item) (snd item)) ` set ?later"
    then obtain item where "item \<in> set ?later" and "?p = path d f u (fst item) (snd item)"
      by (rule imageE)
    with other [of item] show False
      by simp
  qed
  have run: "save_loop session_get image_size d f u c (img # imgs) w = Inr w'"
    using 1(1) 2(1) by simp
  have events: "events w' = events w
      @ concat (map (item_events session_get image_size d f u w) (enumerate c (img # imgs)))"
    using 1(2) 2(2) evs by simp
  have first: "files w' ?p
      = outcome_file (item_outcome session_get image_size d f u w (c, img)) (files w ?p)"
    using 2(4) notin 1(3) by simp
  have later: "files w' (path d f u (fst item) (snd item))
      = outcome_file (item_outcome session_get image_size d f u w item)
          (files w (path d f u (fst item) (snd item)))" if "item \<in> set ?later" for item
    using 2(3) that out [OF that] same [OF that] by simp
  have items: "\<forall>item \<in> set (enumerate c (img # imgs)).
      files w' (path d f u (fst item) (snd item))
        = outcome_file (item_outcome session_get image_size d f u w item)
            (files w (path d f u (fst item) (snd item)))"
    using first later by auto
  have rest: "\<forall>p. p \<notin> (\<lambda>item. path d f u (fst item) (snd item)) ` set (enumerate c (img # imgs))
      \<longrightarrow> files w' p = files w p"
  proof (intro allI impI)
    fix p
    assume "p \<notin> (\<lambda>item. path d f u (fst item) (snd item)) ` set (enumerate c (img # imgs))"
    then have "p \<noteq> ?p" and "p \<notin> (\<lambda>item. path d f u (fst item) (snd item)) ` set ?later"
      by auto
    with 2(4) 1(3) show "files w' p = files w p"
      by simp
  qed
  from run events items rest 2(5,6) 1(4,5) show ?case
    by simp
qed

text \<open>The whole method, from the world in which it is called.\<close>

lemma save_images_outcomes:
  assumes wf: "well_formed d"
    and sg0: "\<forall>url e. session_get url = Inl e \<longrightarrow> caught e"
    and isz0: "\<forall>b e. image_size b = Inl e \<longrightarrow> caught e"
    and fr: "folder_ready w (albumFolder d foldername)"
    and cs: "\<forall>item \<in> set (enumerate 1 (imageIDs d)).
        can_save w (path d (albumFolder d foldername) useKey (fst item) (snd item))"
  shows "\<exists>w'. save_images session_get image_size d foldername useKey w = Inr w'
           \<and> events w' = events w
               @ concat (map (item_events session_get image_size d (albumFolder d foldername) useKey w)
                          (enumerate 1 (imageIDs d)))
               @ map CompleteCallback (complete_callbacks d)
           \<and> (\<forall>item \<in> set (enumerate 1 (imageIDs d)).
                 files w' (path d (albumFolder d foldername) useKey (fst item) (snd item))
                   = outcome_file
                       (item_outcome session_get image_size d (albumFolder d foldername) useKey w item)
                       (files w (path d (albumFolder d foldername) useKey (fst item) (snd item))))
           \<and> (\<forall>p. p \<notin> (\<lambda>item. path d (albumFolder d foldername) useKey (fst item) (snd item))
                          ` set (enumerate 1 (imageIDs d))
                 \<longrightarrow> files w' p = files w p)
           \<and> os_path_exists w' (albumFolder d foldername)"
proof -
  let ?f = "albumFolder d foldername"
  let ?items = "enumerate 1 (imageIDs d)"
  have sg: "\<And>url e. session_get url = Inl e \<Longrightarrow> caught e"
    using sg0 by blast
  have isz: "\<And>b e. image_size b = Inl e \<Longrightarrow> caught e"
    using isz0 by blast
  from wf have key: "list_all alnum (album_key d)"
    and wfi: "list_all well_formed_image (imageIDs d)"
    by (simp_all add: well_formed_def)
  from fr obtain w0 where mk: "make_folder ?f w = Inr w0"
    using make_folder_ready [of ?f w] by blast
  from make_folder_frame [OF mk] have 0:
    "files w0 = files w" "events w0 = events w" "denied w0 = denied w"
    "\<forall>p. p \<noteq> ?f \<longrightarrow> dirs w0 p = dirs w p" "os_path_exists w0 ?f"
    by simp_all
  have apart: "path d ?f useKey (fst item) (snd item) \<noteq> ?f" if "item \<in> set ?items" for item
  proof -
    from that have "snd item \<in> set (imageIDs d)"
      by (rule enumerate_item)
    with wfi have "well_formed_image (snd item)"
      by (simp add: list_all_iff)
    with key show ?thesis
      by (rule path_not_folder)
  qed
  have cs0: "\<forall>item \<in> set ?items. can_save w0 (path d ?f useKey (fst item) (snd item))"
  proof
    fix item
    assume item: "item \<in> set ?items"
    then have "path d ?f useKey (fst item) (snd item) \<noteq> ?f"
      by (rule apart)
    with 0 have "can_save w0 (path d ?f useKey (fst item) (snd item))
        = can_save w (path d ?f useKey (fst item) (snd item))"
      by (intro can_save_frame) simp_all
    with cs item show "can_save w0 (path d ?f useKey (fst item) (snd item))"
      by simp
  qed
  have "\<exists>w1. save_loop session_get image_size d ?f useKey 1 (imageIDs d) w0 = Inr w1
           \<and> events w1 = events w0
               @ concat (map (item_events session_get image_size d ?f useKey w0) ?items)
           \<and> (\<forall>item \<in> set ?items.
                 files w1 (path d ?f useKey (fst item) (snd item))
                   = outcome_file (item_outcome session_get image_size d ?f useKey w0 item)
                       (files w0 (path d ?f useKey (fst item) (snd item))))
           \<and> (\<forall>p. p \<notin> (\<lambda>item. path d ?f useKey (fst item) (snd item)) ` set ?items
                 \<longrightarrow> files w1 p = files w0 p)
           \<and> dirs w1 = dirs w0 \<and> denied w1 = denied w0"
    by (rule save_loop_outcomes) (rule key, erule sg, erule isz, rule wfi, rule cs0)
  then obtain w1 where 1:
    "save_loop session_get image_size d ?f useKey 1 (imageIDs d) w0 = Inr w1"
    "events w1 = events w0 @ concat (map (item_events session_get image_size d ?f useKey w0) ?items)"
    "\<forall>item \<in> set ?items.
        files w1 (path d ?f useKey (fst item) (snd item))
          = outcome_file (item_outcome session_get image_size d ?f useKey w0 item)
              (files w0 (path d ?f useKey (fst item) (snd item)))"
    "\<forall>p. p \<notin> (\<lambda>item. path d ?f useKey (fst item) (snd item)) ` set ?items
        \<longrightarrow> files w1 p = files w0 p"
    "dirs w1 = dirs w0"
    by blast
  have "?f \<notin> (\<lambda>item. path d ?f useKey (fst item) (snd item)) ` set ?items"
    using apart by force
  with 1(4) have "files w1 ?f = files w0 ?f"
    by simp
  with 0(5) 1(5) have folder: "os_path_exists w1 ?f"
    by (simp add: os_path_exists_def isfile_def)
  have out: "item_outcome session_get image_size d ?f useKey w0 = item_outcome session_get image_size d ?f useKey w"
    by (rule ext) (simp add: item_outcome_def download_outcome_def isfile_def 0(1))
  have ev: "item_events session_get image_size d ?f useKey w0 = item_events session_get image_size d ?f useKey w"
    by (rule ext) (simp add: item_events_def out)
  let ?w' = "emit (map CompleteCallback (complete_callbacks d)) w1"
  have "save_images session_get image_size d foldername useKey w = Inr ?w'"
    using mk 1(1) by (simp add: save_images_def)
  moreover have "events ?w' = events w
      @ concat (map (item_events session_get image_size d ?f useKey w) ?items)
      @ map CompleteCallback (complete_callbacks d)"
    using 1(2) 0(2) ev by simp
  moreover have "\<forall>item \<in> set ?items.
      files ?w' (path d ?f useKey (fst item) (snd item))
        = outcome_file (item_outcome session_get image_size d ?f useKey w item)
            (files w (path d ?f useKey (fst item) (snd item)))"
    using 1(3) 0(1) out by simp
  moreover have "\<forall>p. p \<notin> (\<lambda>item. path d ?f useKey (fst item) (snd item)) ` set ?items
      \<longrightarrow> files ?w' p = files w p"
    using 1(4) 0(1) by simp
  moreover have "os_path_exists ?w' ?f"
    using folder by simp
  ultimately show ?thesis
    by blast
qed

subsection \<open>The example run\<close>

lemma example_init:
  "init example_session_get example_slot ''http://imgur.com/a/uOOju'' None True
     = Inr (example_downloader\<lparr>image_callbacks := [], success_callbacks := [], complete_callbacks := []\<rparr>)"
  by code_simp

lemma example_registration:
  "on_complete (on_download_success (on_image_download
      (example_downloader\<lparr>image_callbacks := [], success_callbacks := [], complete_callbacks := []\<rparr>) 1) 2) 3
     = example_downloader"
  by (simp add: on_complete_def on_download_success_def on_image_download_def example_downloader_def)

lemma example_formats:
  "format_0_2 (Suc 0) = ''01''"
  "format_0_2 (Suc (Suc 0)) = ''02''"
  "format_0_2 (Suc (Suc (Suc 0))) = ''03''"
  "format_0_2 (Suc (Suc (Suc (Suc 0)))) = ''04''"
  "format_0_2 (Suc (Suc (Suc (Suc (Suc 0))))) = ''05''"
  by code_simp+

lemma example_run:
  "save_images example_session_get example_image_size example_downloader None False example_world
     = Inr example_result"
  by (simp add: save_images_def make_folder_def os_path_exists_def albumFolder_def
      example_downloader_def save_image_def Let_def path_def suffix_def os_path_join_def
      image_url_def example_formats write_file_def
      example_world_def isfile_def emit_def example_session_get_def example_image_size_def
      download_failed_def example_result_def)

subsection \<open>The claims about a run\<close>

lemma example_well_formed: "well_formed example_downloader"
  by (simp add: well_formed_def well_formed_image_def example_downloader_def alnum_def)

lemma example_failures:
  "\<forall>url e. example_session_get url = Inl e \<longrightarrow> transport_failure e"
  "\<forall>b e. example_image_size b = Inl e \<longrightarrow> e = UnidentifiedImageError"
  by (auto simp: example_session_get_def example_image_size_def transport_failure_def
      split: if_splits)

lemma example_items:
  "enumerate 1 (imageIDs example_downloader)
     = [(1, (''aaa'', ''.jpg'')), (2, (''bbb'', ''.png'')), (3, (''ccc'', ''.gif'')),
        (4, (''ddd'', ''.jpg'')), (5, (''eee'', ''.jpg''))]"
  by (simp add: example_downloader_def)

lemma example_paths:
  "path example_downloader (albumFolder example_downloader None) False (Suc 0) (''aaa'', ''.jpg'')
     = ''uOOju/aaa_01.jpg''"
  "path example_downloader (albumFolder example_downloader None) False 2 (''bbb'', ''.png'')
     = ''uOOju/bbb_02.png''"
  "path example_downloader (albumFolder example_downloader None) False 3 (''ccc'', ''.gif'')
     = ''uOOju/ccc_03.gif''"
  "path example_downloader (albumFolder example_downloader None) False 4 (''ddd'', ''.jpg'')
     = ''uOOju/ddd_04.jpg''"
  "path example_downloader (albumFolder example_downloader None) False 5 (''eee'', ''.jpg'')
     = ''uOOju/eee_05.jpg''"
proof -
  have f: "format_0_2 (Suc 0) = ''01''" "format_0_2 2 = ''02''" "format_0_2 3 = ''03''"
    "format_0_2 4 = ''04''" "format_0_2 5 = ''05''"
    by code_simp+
  show
    "path example_downloader (albumFolder example_downloader None) False (Suc 0) (''aaa'', ''.jpg'')
       = ''uOOju/aaa_01.jpg''"
    "path example_downloader (albumFolder example_downloader None) False 2 (''bbb'', ''.png'')
       = ''uOOju/bbb_02.png''"
    "path example_downloader (albumFolder example_downloader None) False 3 (''ccc'', ''.gif'')
       = ''uOOju/ccc_03.gif''"
    "path example_downloader (albumFolder example_downloader None) False 4 (''ddd'', ''.jpg'')
       = ''uOOju/ddd_04.jpg''"
    "path example_downloader (albumFolder example_downloader None) False 5 (''eee'', ''.jpg'')
       = ''uOOju/eee_05.jpg''"
    by (simp_all add: path_def albumFolder_def example_downloader_def suffix_def os_path_join_def f)
qed

lemma save_images_returns:
  assumes "well_formed d"
    and "\<forall>url e. session_get url = Inl e \<longrightarrow> caught e"
    and "\<forall>b e. image_size b = Inl e \<longrightarrow> caught e"
    and "folder_ready w (albumFolder d foldername)"
    and "\<forall>item \<in> set (enumerate 1 (imageIDs d)).
        can_save w (path d (albumFolder d foldername) useKey (fst item) (snd item))"
  shows "\<exists>w'. save_images session_get image_size d foldername useKey w = Inr w'"
  using save_images_outcomes [OF assms] by blast

lemma example_disk:
  assumes "dirs w = (\<lambda>p. p = ''uOOju'')" and "denied w = (\<lambda>p. None)"
  shows "folder_ready w (albumFolder example_downloader None)"
    and "\<forall>item \<in> set (enumerate 1 (imageIDs example_downloader)).
        can_save w (path example_downloader (albumFolder example_downloader None) False
          (fst item) (snd item))"
proof -
  show "folder_ready w (albumFolder example_downloader None)"
    using assms
    by (simp add: folder_ready_def os_path_exists_def albumFolder_def example_downloader_def)
  show "\<forall>item \<in> set (enumerate 1 (imageIDs example_downloader)).
      can_save w (path example_downloader (albumFolder example_downloader None) False
        (fst item) (snd item))"
    unfolding example_items using assms
    by (simp add: example_paths can_save_def)
qed


text \<open>
  A folder name that is empty: \<open>os.makedirs\<close> raises before the loop, whatever the
  images and the service.
\<close>

lemma empty_folder_name_raises:
  "save_images session_get image_size d (Some []) useKey w
     = Inl (OtherException ''FileNotFoundError'' None)"
  by (simp add: save_images_def albumFolder_def make_folder_empty)



text \<open>The same album on a disk that has no folder yet: the folder is made, the fifth image saved.\<close>

lemma example_new_folder:
  "\<exists>w'. save_images example_session_get example_image_size example_downloader None False empty_world
          = Inr w'
      \<and> \<not> os_path_exists empty_world ''uOOju'' \<and> os_path_exists w' ''uOOju''
      \<and> files w' ''uOOju/eee_05.jpg'' = Some ''JFIF''"
proof -
  let ?f = "albumFolder example_downloader None"
  have f: "?f = ''uOOju''"
    by (simp add: albumFolder_def example_downloader_def)
  have sg: "\<forall>url e. example_session_get url = Inl e \<longrightarrow> caught e"
    and isz: "\<forall>b e. example_image_size b = Inl e \<longrightarrow> caught e"
    using example_failures caught_failure by blast+
  have fr: "folder_ready empty_world ?f"
    unfolding f by (simp add: folder_ready_def empty_world_def)
  have cs: "\<forall>item \<in> set (enumerate 1 (imageIDs example_downloader)).
      can_save empty_world (path example_downloader ?f False (fst item) (snd item))"
    by (simp add: can_save_def empty_world_def)
  have out: "item_outcome example_session_get example_image_size example_downloader ?f False empty_world
      (5, (''eee'', ''.jpg'')) = Saved ''JFIF''"
    by (simp add: item_outcome_def example_paths download_outcome_def isfile_def
        empty_world_def image_url_def example_session_get_def example_image_size_def)
  from save_images_outcomes [OF example_well_formed sg isz fr cs]
  obtain w' where 1:
    "save_images example_session_get example_image_size example_downloader None False empty_world
       = Inr w'"
    "\<forall>item \<in> set (enumerate 1 (imageIDs example_downloader)).
        files w' (path example_downloader ?f False (fst item) (snd item))
          = outcome_file
              (item_outcome example_session_get example_image_size example_downloader ?f False
                 empty_world item)
              (files empty_world (path example_downloader ?f False (fst item) (snd item)))"
    "os_path_exists w' ?f"
    by blast
  from 1(2) have "files w' ''uOOju/eee_05.jpg'' = Some ''JFIF''"
    unfolding example_items by (simp add: out example_paths outcome_file_def)
  moreover have "\<not> os_path_exists empty_world ''uOOju''"
    by (simp add: os_path_exists_def isfile_def empty_world_def)
  ultimately show ?thesis
    using 1(1,3) unfolding f by blast
qed

text \<open>
  C6. An image whose file is not there yet, whose request succeeds and whose body has
  the size 161 by 81: the pass through the loop calls the first hook and sends the
  request, and that is all. The files are as before, no success hook is called, and
  the loop goes on with the next image.
\<close>

theorem placeholder_not_saved:
  assumes "\<not> isfile w (path d folder useKey counter img)"
    and "session_get (image_url img) = Inr imageRequest"
    and "image_size (content imageRequest) = Inr (161, 81)"
  shows "\<exists>w'. save_image session_get image_size d folder useKey counter img w = Inr w'
           \<and> files w' = files w
           \<and> events w' = events w @ image_callback_events d folder useKey counter img
                                   @ [HttpGet (image_url img)]
           \<and> save_loop session_get image_size d folder useKey counter (img # imgs) w
               = save_loop session_get image_size d folder useKey (Suc counter) imgs w'"
  using assms
  by (simp add: save_image_def Let_def image_callback_events_def)

theorem placeholder_not_saved_witness:
  "\<not> isfile example_world ''uOOju/ddd_04.jpg''
   \<and> example_image_size ''removed'' = Inr (161, 81)
   \<and> (\<exists>w'. save_image example_session_get example_image_size example_downloader ''uOOju'' False 4
              (''ddd'', ''.jpg'') example_world = Inr w'
         \<and> files w' = files example_world
         \<and> events w' = [ImageCallback 1 4 ''http://i.imgur.com/ddd.jpg'' ''uOOju/ddd_04.jpg'',
                         HttpGet ''http://i.imgur.com/ddd.jpg'']
         \<and> save_loop example_session_get example_image_size example_downloader ''uOOju'' False 4
              [(''ddd'', ''.jpg''), (''eee'', ''.jpg'')] example_world
             = save_loop example_session_get example_image_size example_downloader ''uOOju'' False 5
              [(''eee'', ''.jpg'')] w')"
proof -
  have f4: "format_0_2 4 = ''04''" by code_simp
  have p: "path example_downloader ''uOOju'' False 4 (''ddd'', ''.jpg'') = ''uOOju/ddd_04.jpg''"
    by (simp add: path_def suffix_def os_path_join_def f4)
  have u: "image_url (''ddd'', ''.jpg'') = ''http://i.imgur.com/ddd.jpg''"
    by (simp add: image_url_def)
  have 1: "\<not> isfile example_world (path example_downloader ''uOOju'' False 4 (''ddd'', ''.jpg''))"
    unfolding p by (simp add: isfile_def example_world_def)
  have 2: "example_session_get (image_url (''ddd'', ''.jpg''))
      = Inr \<lparr>status_code = 200, content = ''removed''\<rparr>"
    unfolding u by (simp add: example_session_get_def)
  have 3: "example_image_size (content \<lparr>status_code = 200, content = ''removed''\<rparr>) = Inr (161, 81)"
    by (simp add: example_image_size_def)
  have e: "image_callback_events example_downloader ''uOOju'' False 4 (''ddd'', ''.jpg'')
      = [ImageCallback 1 4 ''http://i.imgur.com/ddd.jpg'' ''uOOju/ddd_04.jpg'']"
    unfolding image_callback_events_def p u by (simp add: example_downloader_def)
  from placeholder_not_saved [where w = example_world and d = example_downloader
      and folder = "''uOOju''" and useKey = False and counter = 4 and img = "(''ddd'', ''.jpg'')"
      and session_get = example_session_get and image_size = example_image_size
      and imageRequest = "\<lparr>status_code = 200, content = ''removed''\<rparr>"
      and imgs = "[(''eee'', ''.jpg'')]", OF 1 2 3] 1 3
  show ?thesis
    unfolding p u e by (simp add: example_world_def)
qed

text \<open>
  C5. An image whose file is there when its turn comes costs no request and fires no
  success hook: the pass through the loop calls the first hook (and prints a line when
  verbose), nothing else. For a whole run of a well-formed instance that returns: the
  requests sent are those for the images whose files were missing when the run began,
  in order; a success hook fires only for a path that was no file then; every file
  that was there is left as it was; and when the files of all images were there, the
  disk after the run is the disk before it.
\<close>

theorem existing_files_skipped:
  assumes "well_formed d"
    and "save_images session_get image_size d foldername useKey w = Inr w'"
  shows "(\<forall>w0 counter img. isfile w0 (path d (albumFolder d foldername) useKey counter img) \<longrightarrow>
            save_image session_get image_size d (albumFolder d foldername) useKey counter img w0
              = Inr (emit (skip_events d (albumFolder d foldername) useKey counter img) w0))
       \<and> (\<exists>new. events w' = events w @ new @ map CompleteCallback (complete_callbacks d)
             \<and> filter is_http_get new =
                 map (\<lambda>(counter, img). HttpGet (image_url img))
                   (filter (\<lambda>(counter, img).
                              \<not> isfile w (path d (albumFolder d foldername) useKey counter img))
                     (enumerate 1 (imageIDs d)))
             \<and> (\<forall>fn counter url p. SuccessCallback fn counter url p \<in> set new \<longrightarrow> \<not> isfile w p))
       \<and> (\<forall>p. isfile w p \<longrightarrow> files w' p = files w p)
       \<and> ((\<forall>(counter, img) \<in> set (enumerate 1 (imageIDs d)).
              isfile w (path d (albumFolder d foldername) useKey counter img))
            \<longrightarrow> files w' = files w)"
proof -
  let ?f = "albumFolder d foldername"
  from save_images_Inr [OF assms(2)] obtain w0 w1 where
    w0: "files w0 = files w" "events w0 = events w"
    and loop0: "save_loop session_get image_size d ?f useKey 1 (imageIDs d) w0 = Inr w1"
    and w': "w' = emit (map CompleteCallback (complete_callbacks d)) w1"
    by blast
  from w0(1) have isf: "isfile w0 = isfile w"
    by (simp add: isfile_def fun_eq_iff)
  from assms(1) have key: "list_all alnum (album_key d)"
    and wf: "list_all well_formed_image (imageIDs d)"
    by (simp_all add: well_formed_def)
  from save_loop_existing [OF key wf loop0, unfolded isf w0] obtain new where n:
    "events w1 = events w @ new"
    "filter is_http_get new =
       map (\<lambda>(n, img). HttpGet (image_url img))
         (filter (\<lambda>(n, img). \<not> isfile w (path d ?f useKey n img)) (enumerate 1 (imageIDs d)))"
    "\<forall>fn n url p. SuccessCallback fn n url p \<in> set new \<longrightarrow> \<not> isfile w p"
    "\<forall>p. isfile w p \<longrightarrow> files w1 p = files w p"
    "\<forall>p. files w1 p \<noteq> files w p \<longrightarrow>
        p \<in> (\<lambda>(n, img). path d ?f useKey n img) ` set (enumerate 1 (imageIDs d))"
    by blast
  have skip: "\<forall>w0 counter img. isfile w0 (path d ?f useKey counter img) \<longrightarrow>
      save_image session_get image_size d ?f useKey counter img w0
        = Inr (emit (skip_events d ?f useKey counter img) w0)"
    by (simp add: save_image_existing)
  have ev: "\<exists>new. events w' = events w @ new @ map CompleteCallback (complete_callbacks d)
      \<and> filter is_http_get new =
          map (\<lambda>(counter, img). HttpGet (image_url img))
            (filter (\<lambda>(counter, img). \<not> isfile w (path d ?f useKey counter img))
              (enumerate 1 (imageIDs d)))
      \<and> (\<forall>fn counter url p. SuccessCallback fn counter url p \<in> set new \<longrightarrow> \<not> isfile w p)"
    using n(1-3) w' by auto
  have kept: "\<forall>p. isfile w p \<longrightarrow> files w' p = files w p"
    using n(4) w' by simp
  have same: "files w' = files w"
    if all: "\<forall>(counter, img) \<in> set (enumerate 1 (imageIDs d)). isfile w (path d ?f useKey counter img)"
  proof
    fix p
    show "files w' p = files w p"
    proof (cases "isfile w p")
      case True
      with kept show ?thesis by simp
    next
      case False
      with all have "p \<notin> (\<lambda>(n, img). path d ?f useKey n img) ` set (enumerate 1 (imageIDs d))"
        by auto
      with n(5) have "files w1 p = files w p" by blast
      with w' show ?thesis by simp
    qed
  qed
  from skip ev kept same show ?thesis by blast
qed

text \<open>The second run of the example, against a service that is down.\<close>

theorem existing_files_skipped_witness:
  "save_images example_session_get example_image_size example_downloader None False example_world
     = Inr example_result
   \<and> isfile example_result ''uOOju/aaa_01.jpg'' \<and> isfile example_result ''uOOju/eee_05.jpg''
   \<and> (\<exists>w'. save_images (\<lambda>url. Inl ConnectionError) example_image_size example_downloader None False
               example_result = Inr w'
         \<and> (\<exists>new. events w' = events example_result @ new @ [CompleteCallback 3]
               \<and> filter is_http_get new =
                    [HttpGet ''http://i.imgur.com/bbb.png'', HttpGet ''http://i.imgur.com/ccc.gif'',
                     HttpGet ''http://i.imgur.com/ddd.jpg''])
         \<and> files w' ''uOOju/aaa_01.jpg'' = Some ''JFIF''
         \<and> files w' ''uOOju/eee_05.jpg'' = Some ''old'')"
proof -
  have d: "dirs example_result = (\<lambda>p. p = ''uOOju'')" "denied example_result = (\<lambda>p. None)"
    by (simp_all add: example_result_def)
  have "\<exists>w'. save_images (\<lambda>url. Inl ConnectionError) example_image_size example_downloader
      None False example_result = Inr w'"
  proof (rule save_images_returns [OF example_well_formed _ _ example_disk [OF d]])
    show "\<forall>url e. (\<lambda>url. Inl ConnectionError) url = Inl e \<longrightarrow> caught e"
      by simp
    show "\<forall>b e. example_image_size b = Inl e \<longrightarrow> caught e"
      using example_failures(2) caught_failure by blast
  qed
  then obtain w' where run: "save_images (\<lambda>url. Inl ConnectionError) example_image_size example_downloader
      None False example_result = Inr w'"
    by blast
  have fl: "filter (\<lambda>(counter, img).
        \<not> isfile example_result (path example_downloader (albumFolder example_downloader None) False counter img))
      (enumerate 1 (imageIDs example_downloader))
    = [(2, (''bbb'', ''.png'')), (3, (''ccc'', ''.gif'')), (4, (''ddd'', ''.jpg''))]"
    by (simp add: albumFolder_def example_downloader_def path_def suffix_def os_path_join_def
        example_formats isfile_def example_result_def)
  have cs: "complete_callbacks example_downloader = [3]"
    by (simp add: example_downloader_def)
  have f1: "isfile example_result ''uOOju/aaa_01.jpg''" and f5: "isfile example_result ''uOOju/eee_05.jpg''"
    by (simp_all add: isfile_def example_result_def)
  have v1: "files example_result ''uOOju/aaa_01.jpg'' = Some ''JFIF''"
    and v5: "files example_result ''uOOju/eee_05.jpg'' = Some ''old''"
    by (simp_all add: example_result_def)
  from existing_files_skipped [OF example_well_formed run]
  have "\<exists>new. events w' = events example_result @ new @ [CompleteCallback 3]
        \<and> filter is_http_get new =
            [HttpGet ''http://i.imgur.com/bbb.png'', HttpGet ''http://i.imgur.com/ccc.gif'',
             HttpGet ''http://i.imgur.com/ddd.jpg'']"
    and "\<forall>p. isfile example_result p \<longrightarrow> files w' p = files example_result p"
    unfolding fl cs by (auto simp: image_url_def)
  with f1 f5 v1 v5 run example_run show ?thesis
    by auto
qed

section \<open>The instance the constructor leaves\<close>

lemma validate_url_key:
  assumes "validate_url url = Inr (p, k)"
  shows "(p = ''http'' \<or> p = ''https'') \<and> k \<noteq> [] \<and> list_all alnum k"
proof -
  from assms have s: "scan_url url = Some (p, k)"
    by (simp add: validate_url_scan split: option.splits)
  from scan_url_parts [OF s] scan_url_key [OF s] show ?thesis by blast
qed

lemma init_parts:
  assumes "init session_get slot url extn verb = Inr d"
  shows "validate_url url = Inr (protocol d, album_key d)
       \<and> read_listing session_get (fullListURL (album_key d)) = Inr (response_of d)
       \<and> imageIDs d = find_imageIDs slot extn (text (response_of d))"
  using assms
  by (auto simp: init_def Let_def split: sum.splits prod.splits)

lemma init_well_formed:
  assumes "init session_get slot url extn verb = Inr d"
  shows "well_formed d"
  using init_parts [OF assms] validate_url_key [of url "protocol d" "album_key d"]
    find_imageIDs_well_formed [of slot extn "text (response_of d)"]
  by (simp add: well_formed_def)

lemma registration_well_formed:
  "well_formed d \<Longrightarrow> well_formed (on_image_download d fn)"
  "well_formed d \<Longrightarrow> well_formed (on_download_success d fn)"
  "well_formed d \<Longrightarrow> well_formed (on_complete d fn)"
  by (simp_all add: well_formed_def on_image_download_def on_download_success_def on_complete_def)

text \<open>
  C10. After the constructor the attribute \<open>album_key\<close> of the instance is the key
  that the URL pattern took from the URL, a non-empty string of letters and digits.
  The class has a function of that name, but the lookup finds the string of the
  instance first, and calling the string raises TypeError.
\<close>

theorem album_key_attribute_shadows_method:
  assumes "init session_get slot url extn verb = Inr d"
  shows "validate_url url = Inr (protocol d, album_key d)
       \<and> album_key d \<noteq> [] \<and> list_all alnum (album_key d)
       \<and> ''album_key'' \<in> set class_functions
       \<and> getattr d ''album_key'' = Inr (StrValue (album_key d))
       \<and> call_attr d ''album_key'' = Inl TypeError"
proof -
  from init_parts [OF assms] have v: "validate_url url = Inr (protocol d, album_key d)" by simp
  from validate_url_key [OF v] have k: "album_key d \<noteq> []" "list_all alnum (album_key d)"
    by simp_all
  have c: "''album_key'' \<in> set class_functions"
    by (simp add: class_functions_def)
  have g: "getattr d ''album_key'' = Inr (StrValue (album_key d))"
    by (simp add: getattr_def instance_dict_def)
  then have "call_attr d ''album_key'' = Inl TypeError"
    by (simp add: call_attr_def)
  with v k c g show ?thesis by simp
qed

theorem album_key_attribute_shadows_method_witness:
  "init example_session_get example_slot ''http://imgur.com/a/uOOju'' None True
     = Inr (example_downloader\<lparr>image_callbacks := [], success_callbacks := [],
                                complete_callbacks := []\<rparr>)
   \<and> getattr (example_downloader\<lparr>image_callbacks := [], success_callbacks := [],
                                   complete_callbacks := []\<rparr>) ''album_key''
       = Inr (StrValue ''uOOju'')
   \<and> call_attr (example_downloader\<lparr>image_callbacks := [], success_callbacks := [],
                                     complete_callbacks := []\<rparr>) ''album_key''
       = Inl TypeError"
proof -
  let ?d = "example_downloader\<lparr>image_callbacks := [], success_callbacks := [],
      complete_callbacks := []\<rparr>"
  have k: "album_key ?d = ''uOOju''" by (simp add: example_downloader_def)
  from album_key_attribute_shadows_method [OF example_init] example_init
  show ?thesis unfolding k by simp
qed

section \<open>The URLs of the requests\<close>

lemma save_loop_requests:
  assumes "save_loop session_get image_size d f u c imgs w = Inr w'"
  shows "\<exists>new. events w' = events w @ new
           \<and> (\<forall>url. HttpGet url \<in> set new \<longrightarrow> (\<exists>img \<in> set imgs. url = image_url img))"
  using assms
proof (induction imgs arbitrary: c w)
  case Nil
  then show ?case by simp
next
  case (Cons img imgs)
  from Cons.prems obtain w1 where
    one: "save_image session_get image_size d f u c img w = Inr w1"
    and rest: "save_loop session_get image_size d f u (Suc c) imgs w1 = Inr w'"
    by (auto split: sum.splits)
  from save_image_frame [OF one] obtain new1 where 1:
    "events w1 = events w @ new1"
    "filter is_http_get new1 = (if isfile w (path d f u c img) then [] else [HttpGet (image_url img)])"
    by blast
  from Cons.IH [OF rest] obtain new2 where 2:
    "events w' = events w1 @ new2"
    "\<forall>url. HttpGet url \<in> set new2 \<longrightarrow> (\<exists>img \<in> set imgs. url = image_url img)"
    by blast
  have "url = image_url img" if "HttpGet url \<in> set new1" for url
  proof -
    from that have "HttpGet url \<in> set (filter is_http_get new1)" by simp
    with 1(2) show ?thesis by (auto split: if_splits)
  qed
  with 1(1) 2 have "events w' = events w @ (new1 @ new2)
      \<and> (\<forall>url. HttpGet url \<in> set (new1 @ new2) \<longrightarrow> (\<exists>i \<in> set (img # imgs). url = image_url i))"
    by auto
  then show ?case by blast
qed

text \<open>
  C8. The claim fails on both URLs. For an album URL with the protocol https the
  listing is not asked for at the https address: a service that answers there and
  nowhere else is not reached, and the constructor ends in the transport failure
  (which leaves it as AttributeError). And the images of the example run are
  requested at http addresses, none at an https address.
\<close>

theorem requests_ignore_protocol:
  "validate_url ''https://imgur.com/a/uOOju'' = Inr (''https'', ''uOOju'')
   \<and> https_only_session_get (''https'' @ ''://imgur.com/a/'' @ ''uOOju'' @ ''/layout/blog'')
       = Inr \<lparr>status_code = 200, content = example_page\<rparr>
   \<and> init https_only_session_get example_slot ''https://imgur.com/a/uOOju'' None False
       = Inl AttributeError
   \<and> save_images example_session_get example_image_size example_downloader None False example_world
       = Inr example_result
   \<and> HttpGet ''http://i.imgur.com/aaa.jpg'' \<in> set (events example_result)
   \<and> HttpGet (''https://i.imgur.com/'' @ ''aaa'' @ ''.jpg'') \<notin> set (events example_result)"
proof -
  have "validate_url ''https://imgur.com/a/uOOju'' = Inr (''https'', ''uOOju'')"
    by code_simp
  moreover have "https_only_session_get (''https'' @ ''://imgur.com/a/'' @ ''uOOju'' @ ''/layout/blog'')
       = Inr \<lparr>status_code = 200, content = example_page\<rparr>"
    by (simp add: https_only_session_get_def)
  moreover have "init https_only_session_get example_slot ''https://imgur.com/a/uOOju'' None False
       = Inl AttributeError"
    by code_simp
  moreover have "HttpGet ''http://i.imgur.com/aaa.jpg'' \<in> set (events example_result)"
    "HttpGet (''https://i.imgur.com/'' @ ''aaa'' @ ''.jpg'') \<notin> set (events example_result)"
    by (simp_all add: example_result_def)
  ultimately show ?thesis
    using example_run by simp
qed

text \<open>
  C8, as the code has it. The listing is requested at
  \<open>http://imgur.com/a/<key>/layout/blog\<close>, with the scheme http whatever protocol the
  album URL has: the constructor reads the session at that URL and at no other, and
  its response is the one it keeps. Every request of \<open>save_images\<close> goes to
  \<open>http://i.imgur.com/<id><extension>\<close> for an image of the instance.
\<close>

theorem requests_use_http:
  "(\<forall>p key. validate_url url = Inr (p, key)
       \<and> session_get (''http://imgur.com/a/'' @ key @ ''/layout/blog'')
           = session_get' (''http://imgur.com/a/'' @ key @ ''/layout/blog'')
      \<longrightarrow> init session_get slot url extn verb = init session_get' slot url extn verb)
   \<and> (\<forall>d. init session_get slot url extn verb = Inr d
      \<longrightarrow> session_get (''http://imgur.com/a/'' @ album_key d @ ''/layout/blog'') = Inr (response_of d))
   \<and> (\<forall>d w w'. save_images session_get image_size d foldername useKey w = Inr w'
      \<longrightarrow> (\<exists>new. events w' = events w @ new
            \<and> (\<forall>u. HttpGet u \<in> set new
                  \<longrightarrow> (\<exists>img \<in> set (imageIDs d). u = ''http://i.imgur.com/'' @ fst img @ snd img))))"
proof (intro conjI allI impI)
  fix p key
  assume "validate_url url = Inr (p, key)
       \<and> session_get (''http://imgur.com/a/'' @ key @ ''/layout/blog'')
           = session_get' (''http://imgur.com/a/'' @ key @ ''/layout/blog'')"
  then show "init session_get slot url extn verb = init session_get' slot url extn verb"
    by (simp add: init_def read_listing_def fullListURL_def)
next
  fix d
  assume "init session_get slot url extn verb = Inr d"
  from init_parts [OF this]
  have "read_listing session_get (fullListURL (album_key d)) = Inr (response_of d)" by simp
  then show "session_get (''http://imgur.com/a/'' @ album_key d @ ''/layout/blog'') = Inr (response_of d)"
    by (auto simp: read_listing_def fullListURL_def split: sum.splits option.splits if_splits)
next
  fix d w w'
  assume "save_images session_get image_size d foldername useKey w = Inr w'"
  from save_images_Inr [OF this] obtain w0 w1 where
    w0: "events w0 = events w"
    and loop: "save_loop session_get image_size d (albumFolder d foldername) useKey 1 (imageIDs d) w0
      = Inr w1"
    and w': "w' = emit (map CompleteCallback (complete_callbacks d)) w1"
    by blast
  from save_loop_requests [OF loop, unfolded w0] obtain new where n: "events w1 = events w @ new"
    "\<forall>url. HttpGet url \<in> set new \<longrightarrow> (\<exists>img \<in> set (imageIDs d). url = image_url img)"
    by blast
  from n w' have "events w' = events w @ (new @ map CompleteCallback (complete_callbacks d))
      \<and> (\<forall>u. HttpGet u \<in> set (new @ map CompleteCallback (complete_callbacks d))
            \<longrightarrow> (\<exists>img \<in> set (imageIDs d). u = ''http://i.imgur.com/'' @ fst img @ snd img))"
    by (auto simp: image_url_def)
  then show "\<exists>new. events w' = events w @ new
      \<and> (\<forall>u. HttpGet u \<in> set new
            \<longrightarrow> (\<exists>img \<in> set (imageIDs d). u = ''http://i.imgur.com/'' @ fst img @ snd img))"
    by blast
qed

theorem requests_use_http_witness:
  "example_session_get (''http://imgur.com/a/'' @ ''uOOju'' @ ''/layout/blog'')
     = Inr \<lparr>status_code = 200, content = example_page\<rparr>
   \<and> (\<exists>new. events example_result = events example_world @ new
         \<and> HttpGet ''http://i.imgur.com/aaa.jpg'' \<in> set new
         \<and> (\<exists>img \<in> set (imageIDs example_downloader).
               ''http://i.imgur.com/aaa.jpg'' = ''http://i.imgur.com/'' @ fst img @ snd img))"
proof -
  let ?d = "example_downloader\<lparr>image_callbacks := [], success_callbacks := [],
      complete_callbacks := []\<rparr>"
  have k: "album_key ?d = ''uOOju''" "response_of ?d = \<lparr>status_code = 200, content = example_page\<rparr>"
    by (simp_all add: example_downloader_def)
  from requests_use_http [of "''http://imgur.com/a/uOOju''" example_session_get example_session_get
      example_slot None True example_image_size None False] example_init
  have a: "example_session_get (''http://imgur.com/a/'' @ ''uOOju'' @ ''/layout/blog'')
     = Inr \<lparr>status_code = 200, content = example_page\<rparr>"
    unfolding k [symmetric] by blast
  from requests_use_http [of "''http://imgur.com/a/uOOju''" example_session_get example_session_get
      example_slot None True example_image_size None False] example_run
  obtain new where n: "events example_result = events example_world @ new"
    "\<forall>u. HttpGet u \<in> set new
        \<longrightarrow> (\<exists>img \<in> set (imageIDs example_downloader). u = ''http://i.imgur.com/'' @ fst img @ snd img)"
    by blast
  have "new = events example_result"
    using n(1) by (simp add: example_world_def)
  then have "HttpGet ''http://i.imgur.com/aaa.jpg'' \<in> set new"
    by (simp add: example_result_def)
  with n a show ?thesis by blast
qed

end
